theory Spec2Isabelle
  imports Complex_Main "HOL-Library.Char_ord" "HOL-Library.List_Lexorder" "HOL-Library.Product_Lexorder"
begin

section \<open>Data model\<close>

text \<open>
  The statement classes live in \<^verbatim>\<open>indra.statements\<close>; the two modules verified here,
  \<^verbatim>\<open>indra/util/statement_presentation.py\<close> and \<^verbatim>\<open>indra/tools/assemble_corpus.py\<close>,
  read statements only through a few attributes and methods. The model keeps exactly
  those.

  Strings are byte strings in UTF-8; their order is the lexicographic order on bytes,
  which agrees with Python's comparison of \<^verbatim>\<open>str\<close> by code point.
\<close>

datatype py_error = TypeError | AttributeError | IndexError

text \<open>A value of \<^verbatim>\<open>db_refs\<close>: \<^verbatim>\<open>None\<close>, an identifier, or a list of scored candidates.\<close>

datatype db_value = DbNone | DbStr string | DbScored "(string \<times> rat) list"

text \<open>
  An \<^verbatim>\<open>Agent\<close>. A modification condition is the triple the code reads,
  \<^verbatim>\<open>(mod_type, residue, position)\<close>; an activity condition is
  \<^verbatim>\<open>(activity_type, is_active)\<close>; a bound condition is \<^verbatim>\<open>(agent, is_bound)\<close>.
  A \<^verbatim>\<open>Concept\<close> that is not an \<^verbatim>\<open>Agent\<close> is a value with no bound conditions.
\<close>

datatype agent = Agent
  (name: string)
  (db_refs: "(string \<times> db_value) list")
  (mods: "(string \<times> string option \<times> string option) list")
  (activity: "(string \<times> bool) option")
  (bound_conditions: "(agent \<times> bool) list")

record evidence =
  source_api :: string
  epistemics :: "(string \<times> bool) list"

text \<open>
  The class of a statement with the attributes the code reads. \<open>Modification\<close> carries
  its class name, whether the class is a \<^verbatim>\<open>RemoveModification\<close>, and
  \<^verbatim>\<open>enz, sub, residue, position\<close>; \<open>RegulateActivity\<close> its class name and
  \<^verbatim>\<open>subj, obj, obj_activity\<close>; \<open>Default\<close> is any other class, with its name and the
  role fillers in declared order. The filters read \<^verbatim>\<open>sub\<close> and \<^verbatim>\<open>obj\<close> without a
  test for \<^verbatim>\<open>None\<close>, so these two are present. A class name determines its class, so the name of one
  of the last three is none of \<^verbatim>\<open>Complex\<close>, \<^verbatim>\<open>Conversion\<close>, \<^verbatim>\<open>ActiveForm\<close>,
  \<^verbatim>\<open>HasActivity\<close> (\<open>wf_body\<close> below).
\<close>

datatype body =
    Complex "agent option list"
  | Conversion "agent option" "agent option list" "agent option list"
  | ActiveForm "agent option" string bool
  | HasActivity "agent option" string bool
  | Modification string bool "agent option" agent "string option" "string option"
  | RegulateActivity string "agent option" agent string
  | Default string "agent option list"

type_synonym ref = nat

record statement =
  body :: body
  evidence :: "evidence list"
  shallow_hash :: int
  belief :: rat
  supports :: "ref list"
  supported_by :: "ref list"

fun class_name :: "body \<Rightarrow> string" where
  "class_name (Complex ms) = ''Complex''"
| "class_name (Conversion subj obj_from obj_to) = ''Conversion''"
| "class_name (ActiveForm ag act is_active) = ''ActiveForm''"
| "class_name (HasActivity ag act has_activity) = ''HasActivity''"
| "class_name (Modification cls rm enz sub residue position) = cls"
| "class_name (RegulateActivity cls subj obj obj_activity) = cls"
| "class_name (Default cls ags) = cls"

definition special_names :: "string list" where
  "special_names = [''Complex'', ''Conversion'', ''ActiveForm'', ''HasActivity'']"

fun wf_body :: "body \<Rightarrow> bool" where
  "wf_body (Modification cls rm enz sub residue position) = (cls \<notin> set special_names)"
| "wf_body (RegulateActivity cls subj obj obj_activity) = (cls \<notin> set special_names)"
| "wf_body (Default cls ags) = (cls \<notin> set special_names)"
| "wf_body b = True"

text \<open>\<^verbatim>\<open>Statement.agent_list()\<close>, per class.\<close>

fun body_agents :: "body \<Rightarrow> agent option list" where
  "body_agents (Complex ms) = ms"
| "body_agents (Conversion subj obj_from obj_to) = subj # obj_from @ obj_to"
| "body_agents (ActiveForm ag act is_active) = [ag]"
| "body_agents (HasActivity ag act has_activity) = [ag]"
| "body_agents (Modification cls rm enz sub residue position) = [enz, Some sub]"
| "body_agents (RegulateActivity cls subj obj obj_activity) = [subj, Some obj]"
| "body_agents (Default cls ags) = ags"

definition agent_list :: "statement \<Rightarrow> agent option list" where
  "agent_list s = body_agents (body s)"

definition get_hash :: "statement \<Rightarrow> int" where
  "get_hash s = shallow_hash s"

section \<open>Grouping and ranking: \<^verbatim>\<open>statement_presentation.py\<close>\<close>

subsection \<open>Keys and their comparison\<close>

text \<open>
  An element of a key after the class name: a name or activity (\<^verbatim>\<open>str\<close>), a tuple of
  names (Conversion), or a flag (\<^verbatim>\<open>bool\<close>).
\<close>

datatype kelem = KStr string | KTup "string list" | KBool bool

type_synonym key = "string \<times> kelem list"

type_synonym sort_key = "int \<times> kelem list \<times> int \<times> string"

text \<open>
  Python 3 comparison. \<^verbatim>\<open>==\<close> between values of different types is \<^verbatim>\<open>False\<close>;
  \<^verbatim>\<open><\<close> between them raises \<^verbatim>\<open>TypeError\<close>. A tuple comparison finds the first
  position where the two tuples differ by \<^verbatim>\<open>==\<close> and compares there with \<^verbatim>\<open><\<close>; a
  proper prefix is smaller.
\<close>

fun elem_lt :: "kelem \<Rightarrow> kelem \<Rightarrow> py_error + bool" where
  "elem_lt (KStr a) (KStr b) = Inr (a < b)"
| "elem_lt (KTup a) (KTup b) = Inr (a < b)"
| "elem_lt (KBool a) (KBool b) = Inr (a < b)"
| "elem_lt x y = Inl TypeError"

fun tuple_lt :: "kelem list \<Rightarrow> kelem list \<Rightarrow> py_error + bool" where
  "tuple_lt [] [] = Inr False"
| "tuple_lt [] (y # ys) = Inr True"
| "tuple_lt (x # xs) [] = Inr False"
| "tuple_lt (x # xs) (y # ys) = (if x = y then tuple_lt xs ys else elem_lt x y)"

fun key_lt :: "sort_key \<Rightarrow> sort_key \<Rightarrow> py_error + bool" where
  "key_lt (a, i, c, v) (a', i', c', v') =
     (if a \<noteq> a' then Inr (a < a')
      else if i \<noteq> i' then tuple_lt i i'
      else if c \<noteq> c' then Inr (c < c')
      else Inr (v < v'))"

text \<open>
  \<^verbatim>\<open>sorted(xs, key=f, reverse=True)\<close>: a stable sort into descending order, which
  raises what a comparison of two keys raises. The model inserts from the right; an
  element goes before the first one whose key is not greater than its own, so elements
  with equal keys keep their order.
\<close>

fun insort_rev :: "('k \<Rightarrow> 'k \<Rightarrow> py_error + bool) \<Rightarrow> ('a \<Rightarrow> 'k) \<Rightarrow> 'a \<Rightarrow> 'a list \<Rightarrow> py_error + 'a list" where
  "insort_rev lt f x [] = Inr [x]"
| "insort_rev lt f x (y # ys) =
     (case lt (f x) (f y) of
        Inl e \<Rightarrow> Inl e
      | Inr True \<Rightarrow> (case insort_rev lt f x ys of Inl e \<Rightarrow> Inl e | Inr zs \<Rightarrow> Inr (y # zs))
      | Inr False \<Rightarrow> Inr (x # y # ys))"

fun sorted_rev :: "('k \<Rightarrow> 'k \<Rightarrow> py_error + bool) \<Rightarrow> ('a \<Rightarrow> 'k) \<Rightarrow> 'a list \<Rightarrow> py_error + 'a list" where
  "sorted_rev lt f [] = Inr []"
| "sorted_rev lt f (x # xs) =
     (case sorted_rev lt f xs of Inl e \<Rightarrow> Inl e | Inr ys \<Rightarrow> insort_rev lt f x ys)"

subsection \<open>\<^verbatim>\<open>_get_keyed_stmts\<close>\<close>

fun name_of :: "agent option \<Rightarrow> string" where
  "name_of None = ''None''"
| "name_of (Some ag) = name ag"

text \<open>
  A set of names, \<^verbatim>\<open>{name(ag) for ag in ags}\<close>, as the duplicate-free list in
  ascending order. Python iterates a set in an order of its own; the order only decides
  in which order the pairwise keys of one statement are first met.
\<close>

definition name_set :: "agent option list \<Rightarrow> string list" where
  "name_set ags = sort (remdups (map name_of ags))"

definition permutations2 :: "'a list \<Rightarrow> ('a \<times> 'a) list" where
  "permutations2 xs = concat (map (\<lambda>a. map (\<lambda>b. (a, b)) (filter (\<lambda>b. b \<noteq> a) xs)) xs)"

fun keys_of :: "body \<Rightarrow> key list" where
  "keys_of (Complex ms) =
     (let ag_ns = name_set ms in
      (if 1 < length ag_ns \<and> length ag_ns < 6
       then map (\<lambda>(a, b). (''Complex'', [KStr a, KStr b])) (permutations2 ag_ns) else [])
      @ (if length ag_ns = 2 then [] else [(''Complex'', map KStr ag_ns)]))"
| "keys_of (Conversion subj obj_from obj_to) =
     [(''Conversion'', [KStr (name_of subj), KTup (name_set obj_from), KTup (name_set obj_to)])]"
| "keys_of (ActiveForm ag act is_active) =
     [(''ActiveForm'', [KStr (name_of ag), KStr act, KBool is_active])]"
| "keys_of (HasActivity ag act has_activity) =
     [(''HasActivity'', [KStr (name_of ag), KStr act, KBool has_activity])]"
| "keys_of b = [(class_name b, map (\<lambda>ag. KStr (name_of ag)) (body_agents b))]"

definition get_keyed_stmts :: "statement list \<Rightarrow> (key \<times> statement) list" where
  "get_keyed_stmts stmt_list = concat (map (\<lambda>s. map (\<lambda>k. (k, s)) (keys_of (body s))) stmt_list)"

subsection \<open>\<^verbatim>\<open>group_and_sort_statements\<close>\<close>

definition ev_count :: "(int \<rightharpoonup> int) option \<Rightarrow> statement \<Rightarrow> int" where
  "ev_count ev_totals stmt =
     (case ev_totals of
        None \<Rightarrow> int (length (evidence stmt))
      | Some tot \<Rightarrow> (case tot (get_hash stmt) of
                      None \<Rightarrow> int (length (evidence stmt))
                    | Some c \<Rightarrow> c))"

record accum =
  stmt_rows :: "(key \<times> statement list) list"
  stmt_counts :: "key \<Rightarrow> int"
  arg_counts :: "kelem list \<Rightarrow> int"

definition accum_init :: accum where
  "accum_init = \<lparr>stmt_rows = [], stmt_counts = (\<lambda>k. 0), arg_counts = (\<lambda>k. 0)\<rparr>"

fun rows_append :: "key \<Rightarrow> statement \<Rightarrow> (key \<times> statement list) list \<Rightarrow> (key \<times> statement list) list" where
  "rows_append k s [] = [(k, [s])]"
| "rows_append k s ((k', ss) # rows) =
     (if k = k' then (k', ss @ [s]) # rows else (k', ss) # rows_append k s rows)"

text \<open>The pairs \<^verbatim>\<open>(subj, obj)\<close> for \<^verbatim>\<open>obj in key[2] + key[3]\<close> of a Conversion key.\<close>

fun conversion_args :: "kelem list \<Rightarrow> kelem list list" where
  "conversion_args [subj, KTup objs_from, KTup objs_to] =
     map (\<lambda>obj. [subj, KStr obj]) (objs_from @ objs_to)"
| "conversion_args inps = []"

definition add_count :: "int \<Rightarrow> 'k \<Rightarrow> ('k \<Rightarrow> int) \<Rightarrow> ('k \<Rightarrow> int)" where
  "add_count c k counts = counts(k := counts k + c)"

definition add_keyed :: "(int \<rightharpoonup> int) option \<Rightarrow> accum \<Rightarrow> key \<times> statement \<Rightarrow> accum" where
  "add_keyed ev_totals acc ks =
     (let key = fst ks; s = snd ks; c = ev_count ev_totals s in
      \<lparr>stmt_rows = rows_append key s (stmt_rows acc),
       stmt_counts = add_count c key (stmt_counts acc),
       arg_counts =
         (if fst key = ''Conversion''
          then fold (add_count c) (conversion_args (snd key)) (arg_counts acc)
          else add_count c (snd key) (arg_counts acc))\<rparr>)"

definition accumulate :: "(int \<rightharpoonup> int) option \<Rightarrow> statement list \<Rightarrow> accum" where
  "accumulate ev_totals stmt_list = foldl (add_keyed ev_totals) accum_init (get_keyed_stmts stmt_list)"

text \<open>
  \<^verbatim>\<open>len(set(ag.name for ag in s.agent_list()))\<close>: reading \<^verbatim>\<open>.name\<close> of an absent
  role filler raises \<^verbatim>\<open>AttributeError\<close>.
\<close>

fun agent_names :: "agent option list \<Rightarrow> py_error + string list" where
  "agent_names [] = Inr []"
| "agent_names (None # ags) = Inl AttributeError"
| "agent_names (Some ag # ags) =
     (case agent_names ags of Inl e \<Rightarrow> Inl e | Inr ns \<Rightarrow> Inr (name ag # ns))"

definition n_names :: "statement \<Rightarrow> py_error + nat" where
  "n_names s = (case agent_names (agent_list s) of
                  Inl e \<Rightarrow> Inl e | Inr ns \<Rightarrow> Inr (length (remdups ns)))"

text \<open>\<^verbatim>\<open>all([... > 2 for s in stmts])\<close>: the list is built in full before \<^verbatim>\<open>all\<close> runs.\<close>

fun all_many_names :: "statement list \<Rightarrow> py_error + bool" where
  "all_many_names [] = Inr True"
| "all_many_names (s # stmts) =
     (case n_names s of
        Inl e \<Rightarrow> Inl e
      | Inr n \<Rightarrow> (case all_many_names stmts of Inl e \<Rightarrow> Inl e | Inr r \<Rightarrow> Inr (2 < n \<and> r)))"

text \<open>
  The member sort key \<^verbatim>\<open>_count(s) + 1/(1+len(s.agent_list()))\<close>, as a rational (the
  code computes it in floating point), and the members sorted by it, descending and
  stable: a stable ascending sort by the negated key.
\<close>

definition member_key :: "(int \<rightharpoonup> int) option \<Rightarrow> statement \<Rightarrow> rat" where
  "member_key ev_totals s = of_int (ev_count ev_totals s) + 1 / (1 + of_nat (length (agent_list s)))"

definition sorted_members :: "(int \<rightharpoonup> int) option \<Rightarrow> statement list \<Rightarrow> statement list" where
  "sorted_members ev_totals stmts = sort_key (\<lambda>s. - member_key ev_totals s) stmts"

type_synonym group = "sort_key \<times> string \<times> statement list"

definition process_row :: "(int \<rightharpoonup> int) option \<Rightarrow> accum \<Rightarrow> key \<times> statement list \<Rightarrow> py_error + group option" where
  "process_row ev_totals acc row =
     (let key = fst row; stmts = snd row;
          verb = fst key; inps = snd key;
          sub_count = stmt_counts acc key;
          arg_count = arg_counts acc inps;
          new_key = (arg_count, inps, sub_count, verb);
          grp = (new_key, verb, sorted_members ev_totals stmts)
      in if verb = ''Complex'' \<and> sub_count = arg_count \<and> length inps \<le> 2
         then (case all_many_names stmts of
                 Inl e \<Rightarrow> Inl e
               | Inr True \<Rightarrow> Inr None
               | Inr False \<Rightarrow> Inr (Some grp))
         else Inr (Some grp))"

fun process_rows :: "(int \<rightharpoonup> int) option \<Rightarrow> accum \<Rightarrow> (key \<times> statement list) list \<Rightarrow> py_error + group list" where
  "process_rows ev_totals acc [] = Inr []"
| "process_rows ev_totals acc (row # rows) =
     (case process_row ev_totals acc row of
        Inl e \<Rightarrow> Inl e
      | Inr g \<Rightarrow> (case process_rows ev_totals acc rows of
                   Inl e \<Rightarrow> Inl e
                 | Inr gs \<Rightarrow> Inr (case g of None \<Rightarrow> gs | Some grp \<Rightarrow> grp # gs)))"

definition group_and_sort_statements :: "statement list \<Rightarrow> (int \<rightharpoonup> int) option \<Rightarrow> py_error + group list" where
  "group_and_sort_statements stmt_list ev_totals =
     (let acc = accumulate ev_totals stmt_list in
      case process_rows ev_totals acc (stmt_rows acc) of
        Inl e \<Rightarrow> Inl e
      | Inr groups \<Rightarrow> sorted_rev key_lt fst groups)"


subsection \<open>\<^verbatim>\<open>make_stmt_from_sort_key\<close>\<close>

text \<open>\<^verbatim>\<open>Agent(name)\<close>: a named agent with no grounding, qualifiers or bound partners.\<close>

definition new_agent :: "string \<Rightarrow> agent" where
  "new_agent n = Agent n [] [] None []"

definition make_agent :: "string \<Rightarrow> agent option" where
  "make_agent n = (if n = ''None'' then None else Some (new_agent n))"

text \<open>
  The names in a tuple of names. A key with something else than a \<^verbatim>\<open>str\<close> where a name
  is read is outside the typed model; \<open>Inl TypeError\<close> marks it.
\<close>

fun elem_names :: "kelem list \<Rightarrow> py_error + string list" where
  "elem_names [] = Inr []"
| "elem_names (KStr n # es) = (case elem_names es of Inl e \<Rightarrow> Inl e | Inr ns \<Rightarrow> Inr (n # ns))"
| "elem_names (x # es) = Inl TypeError"

text \<open>
  The function returns the statement \<^verbatim>\<open>StmtClass(...)\<close>; the model returns its class and
  constructor arguments. It is built without evidence.

  Modelled from the spec: the constructors of \<^verbatim>\<open>indra.statements\<close>, which are not part
  of the sources at hand. A fixed-role statement is its class name with its role fillers
  in declared order (spec 3 and 4.1), so \<^verbatim>\<open>StmtClass(*agents)\<close> is \<open>Default verb agents\<close>.
\<close>

definition make_stmt_from_sort_key :: "sort_key \<Rightarrow> string \<Rightarrow> py_error + body" where
  "make_stmt_from_sort_key key verb =
     (let inps = fst (snd key) in
      if verb = ''Complex'' then
        (case elem_names inps of Inl e \<Rightarrow> Inl e | Inr ns \<Rightarrow> Inr (Complex (map make_agent ns)))
      else if verb = ''Conversion'' then
        (case inps of
           KStr subj # KTup objs_from # KTup objs_to # rest \<Rightarrow>
             Inr (Conversion (make_agent subj) (map make_agent objs_from) (map make_agent objs_to))
         | x # y # z # rest \<Rightarrow> Inl TypeError
         | _ \<Rightarrow> Inl IndexError)
      else if verb = ''ActiveForm'' \<or> verb = ''HasActivity'' then
        (case inps of
           KStr n # KStr act # KBool flag # rest \<Rightarrow>
             Inr (if verb = ''ActiveForm'' then ActiveForm (make_agent n) act flag
                  else HasActivity (make_agent n) act flag)
         | x # y # z # rest \<Rightarrow> Inl TypeError
         | _ \<Rightarrow> Inl IndexError)
      else
        (case elem_names inps of Inl e \<Rightarrow> Inl e | Inr ns \<Rightarrow> Inr (Default verb (map make_agent ns))))"

section \<open>Corpus filters: \<^verbatim>\<open>assemble_corpus.py\<close>\<close>

text \<open>
  Log records and the optional pickle dump (\<^verbatim>\<open>save\<close>) do not influence what a filter
  returns and are left out. A filter that updates the statements it was given returns
  their new state next to its result. Agent objects are taken not to be shared between
  statements.
\<close>

subsection \<open>\<^verbatim>\<open>filter_no_hypothesis\<close>, \<^verbatim>\<open>filter_no_negated\<close>\<close>

text \<open>\<^verbatim>\<open>ev.epistemics.get(flag, False)\<close>.\<close>

definition epistemics_get :: "evidence \<Rightarrow> string \<Rightarrow> bool" where
  "epistemics_get ev flag = (case map_of (epistemics ev) flag of None \<Rightarrow> False | Some v \<Rightarrow> v)"

text \<open>
  The loop over the evidence with its \<^verbatim>\<open>break\<close>: the value of the all-flag and of the
  loop variable \<^verbatim>\<open>ev\<close> after the loop.
\<close>

fun scan_evidence :: "string \<Rightarrow> evidence list \<Rightarrow> evidence option \<Rightarrow> bool \<times> evidence option" where
  "scan_evidence flag [] ev = (True, ev)"
| "scan_evidence flag (e # es) ev =
     (if \<not> epistemics_get e flag then (False, Some e) else scan_evidence flag es (Some e))"

definition all_marked :: "string \<Rightarrow> statement \<Rightarrow> bool" where
  "all_marked flag st =
     (case scan_evidence flag (evidence st) None of
        (all_flag, None) \<Rightarrow> False
      | (all_flag, Some ev) \<Rightarrow> all_flag)"

definition filter_no_hypothesis :: "statement list \<Rightarrow> statement list" where
  "filter_no_hypothesis stmts_in = filter (\<lambda>st. \<not> all_marked ''hypothesis'' st) stmts_in"

definition filter_no_negated :: "statement list \<Rightarrow> statement list" where
  "filter_no_negated stmts_in = filter (\<lambda>st. \<not> all_marked ''negated'' st) stmts_in"

subsection \<open>Bound conditions\<close>

definition remove_bound_conditions :: "agent \<Rightarrow> (agent \<Rightarrow> bool) \<Rightarrow> agent" where
  "remove_bound_conditions ag keep_criterion =
     Agent (name ag) (db_refs ag) (mods ag) (activity ag)
       (filter (\<lambda>bc. keep_criterion (fst bc)) (bound_conditions ag))"

definition any_bound_condition_fails_criterion :: "agent \<Rightarrow> (agent \<Rightarrow> bool) \<Rightarrow> bool" where
  "any_bound_condition_fails_criterion ag criterion =
     (\<exists>b \<in> set (map fst (bound_conditions ag)). \<not> criterion b)"

text \<open>
  The statement after its agent objects were updated in place: the same class and
  attributes, with the role fillers \<open>ags\<close>, which are \<open>body_agents\<close> of the statement
  with some agents replaced by their updated state.
\<close>

fun with_agents :: "body \<Rightarrow> agent option list \<Rightarrow> body" where
  "with_agents (Complex ms) ags = Complex ags"
| "with_agents (Conversion subj obj_from obj_to) (s # ags) =
     Conversion s (take (length obj_from) ags) (drop (length obj_from) ags)"
| "with_agents (ActiveForm ag act is_active) [a] = ActiveForm a act is_active"
| "with_agents (HasActivity ag act has_activity) [a] = HasActivity a act has_activity"
| "with_agents (Modification cls rm enz sub residue position) [e, Some s] =
     Modification cls rm e s residue position"
| "with_agents (RegulateActivity cls subj obj obj_activity) [s, Some ob] =
     RegulateActivity cls s ob obj_activity"
| "with_agents (Default cls ags0) ags = Default cls ags"
| "with_agents b ags = b"

definition set_agents :: "statement \<Rightarrow> agent option list \<Rightarrow> statement" where
  "set_agents st ags = st\<lparr>body := with_agents (body st) ags\<rparr>"

subsection \<open>\<^verbatim>\<open>filter_grounded_only\<close>\<close>

fun truthy :: "db_value \<Rightarrow> bool" where
  "truthy DbNone = False"
| "truthy (DbStr s) = (s \<noteq> [])"
| "truthy (DbScored l) = (l \<noteq> [])"

text \<open>\<^verbatim>\<open>sorted(val, key=lambda x: x[1], reverse=True)[0][1]\<close> of a list with some values.\<close>

definition high_score :: "(string \<times> rat) list \<Rightarrow> rat" where
  "high_score val = hd (rev (sort (map snd val)))"

fun passes_threshold :: "rat \<Rightarrow> db_value \<Rightarrow> bool" where
  "passes_threshold t (DbScored l) = (l \<noteq> [] \<and> t < high_score l)"
| "passes_threshold t v = False"

text \<open>
  \<open>db_refs\<close> is a dictionary: an association list with each key once. \<open>db_names\<close> are
  its keys other than \<^verbatim>\<open>TEXT\<close>, here with their values.
\<close>

definition agent_is_grounded :: "agent \<Rightarrow> rat option \<Rightarrow> bool" where
  "agent_is_grounded ag score_threshold =
     (let db_names = filter (\<lambda>kv. fst kv \<noteq> ''TEXT'') (db_refs ag);
          grounded1 = (db_names \<noteq> []);
          grounded2 = (grounded1 \<and> (\<exists>kv \<in> set db_names. truthy (snd kv)))
      in case score_threshold of
           None \<Rightarrow> grounded2
         | Some t \<Rightarrow>
             (if t = 0 then grounded2
              else grounded2 \<and> (\<exists>kv \<in> set db_names. passes_threshold t (snd kv))))"

text \<open>
  The loop over \<^verbatim>\<open>st.agent_list()\<close> with its \<^verbatim>\<open>break\<close>: whether the statement is
  kept, and the role fillers after the loop. Every role filler is an \<^verbatim>\<open>Agent\<close> here, so
  the \<^verbatim>\<open>isinstance\<close> test holds; for a \<^verbatim>\<open>Concept\<close>, which has no bound conditions, the
  code skips what would change nothing.
\<close>

fun grounded_loop :: "(agent \<Rightarrow> bool) \<Rightarrow> bool \<Rightarrow> agent option list \<Rightarrow> bool \<times> agent option list" where
  "grounded_loop criterion remove_bound [] = (True, [])"
| "grounded_loop criterion remove_bound (None # ags) =
     (case grounded_loop criterion remove_bound ags of (g, ags') \<Rightarrow> (g, None # ags'))"
| "grounded_loop criterion remove_bound (Some ag # ags) =
     (if \<not> criterion ag then (False, Some ag # ags)
      else if remove_bound then
        (case grounded_loop criterion remove_bound ags of
           (g, ags') \<Rightarrow> (g, Some (remove_bound_conditions ag criterion) # ags'))
      else if any_bound_condition_fails_criterion ag criterion then (False, Some ag # ags)
      else (case grounded_loop criterion remove_bound ags of (g, ags') \<Rightarrow> (g, Some ag # ags')))"

text \<open>Returns \<^verbatim>\<open>stmts_out\<close> and the state of the input statements after the call.\<close>

definition filter_grounded_only :: "statement list \<Rightarrow> rat option \<Rightarrow> bool \<Rightarrow> statement list \<times> statement list" where
  "filter_grounded_only stmts_in score_threshold remove_bound =
     (let criterion = (\<lambda>x. agent_is_grounded x score_threshold);
          results = map (\<lambda>st. case grounded_loop criterion remove_bound (agent_list st) of
                                (g, ags) \<Rightarrow> (g, set_agents st ags)) stmts_in
      in (map snd (filter fst results), map snd results))"

subsection \<open>\<^verbatim>\<open>filter_belief\<close>\<close>

text \<open>
  \<^verbatim>\<open>supports\<close> and \<^verbatim>\<open>supported_by\<close> hold references to other statement objects, and the
  filter assigns to these attributes: the statements live in a store, and lists of
  statements are lists of references into it.
\<close>

type_synonym store = "ref \<Rightarrow> statement"

fun filter_belief :: "store \<Rightarrow> ref list \<Rightarrow> rat \<Rightarrow> ref list \<times> store" where
  "filter_belief h [] belief_cutoff = ([], h)"
| "filter_belief h (r # stmts_in) belief_cutoff =
     (if belief (h r) < belief_cutoff then filter_belief h stmts_in belief_cutoff
      else
        (let supp = filter (\<lambda>st. belief_cutoff \<le> belief (h st)) (supports (h r));
             supp_by = filter (\<lambda>st. belief_cutoff \<le> belief (h st)) (supported_by (h r));
             h' = h(r := (h r)\<lparr>supports := supp, supported_by := supp_by\<rparr>)
         in case filter_belief h' stmts_in belief_cutoff of
              (stmts_out, h'') \<Rightarrow> (r # stmts_out, h'')))"

subsection \<open>\<^verbatim>\<open>filter_gene_list\<close>, \<^verbatim>\<open>filter_concept_names\<close>, \<^verbatim>\<open>filter_by_db_refs\<close>\<close>

text \<open>
  \<^verbatim>\<open>_remove_bound_conditions(agent, keep_criterion)\<close> for every role filler; an absent
  one has no \<^verbatim>\<open>bound_conditions\<close>.
\<close>

fun remove_bound_all :: "(agent \<Rightarrow> bool) \<Rightarrow> agent option list \<Rightarrow> py_error + agent option list" where
  "remove_bound_all keep [] = Inr []"
| "remove_bound_all keep (None # ags) = Inl AttributeError"
| "remove_bound_all keep (Some ag # ags) =
     (case remove_bound_all keep ags of
        Inl e \<Rightarrow> Inl e
      | Inr ags' \<Rightarrow> Inr (Some (remove_bound_conditions ag keep) # ags'))"

fun remove_bound_stmts :: "(agent \<Rightarrow> bool) \<Rightarrow> statement list \<Rightarrow> py_error + statement list" where
  "remove_bound_stmts keep [] = Inr []"
| "remove_bound_stmts keep (st # stmts) =
     (case remove_bound_all keep (agent_list st) of
        Inl e \<Rightarrow> Inl e
      | Inr ags \<Rightarrow> (case remove_bound_stmts keep stmts of
                     Inl e \<Rightarrow> Inl e
                   | Inr stmts' \<Rightarrow> Inr (set_agents st ags # stmts')))"

text \<open>\<^verbatim>\<open>Statement.agent_list_with_bound_condition_agents()\<close>.\<close>

definition agent_list_with_bound_condition_agents :: "statement \<Rightarrow> agent option list" where
  "agent_list_with_bound_condition_agents st =
     agent_list st @
     concat (map (\<lambda>a. case a of None \<Rightarrow> [] | Some ag \<Rightarrow> map (\<lambda>bc. Some (fst bc)) (bound_conditions ag))
                 (agent_list st))"

definition found_one :: "string list \<Rightarrow> agent option list \<Rightarrow> bool" where
  "found_one names ags = (\<exists>a \<in> set ags. case a of None \<Rightarrow> False | Some ag \<Rightarrow> name ag \<in> set names)"

definition found_all :: "string list \<Rightarrow> agent option list \<Rightarrow> bool" where
  "found_all names ags = (\<forall>a \<in> set ags. case a of None \<Rightarrow> True | Some ag \<Rightarrow> name ag \<in> set names)"

text \<open>
  \<open>family_ids\<close> stands for the lookup in the entity hierarchy: the FamPlex identifiers of
  the families a gene belongs to. Returns \<^verbatim>\<open>stmts_out\<close> and the state of the input
  statements after the call.
\<close>

definition filter_gene_list ::
  "(string \<Rightarrow> string list) \<Rightarrow> statement list \<Rightarrow> string list \<Rightarrow> string \<Rightarrow> bool \<Rightarrow> bool \<Rightarrow> bool
     \<Rightarrow> py_error + statement list \<times> statement list" where
  "filter_gene_list family_ids stmts_in gene_list policy allow_families remove_bound invert =
     (let filter_list = gene_list @ (if allow_families then concat (map family_ids gene_list) else []);
          keep_criterion = (\<lambda>a. if \<not> invert then name a \<in> set filter_list
                                 else name a \<notin> set filter_list)
      in case (if remove_bound then remove_bound_stmts keep_criterion stmts_in else Inr stmts_in) of
           Inl e \<Rightarrow> Inl e
         | Inr stmts \<Rightarrow>
             (let agents_of = (\<lambda>st. if \<not> remove_bound then agent_list_with_bound_condition_agents st
                                     else agent_list st);
                  stmts_out =
                    (if policy = ''one'' then
                       filter (\<lambda>st. let found_gene = found_one filter_list (agents_of st)
                                    in (found_gene \<and> \<not> invert) \<or> (\<not> found_gene \<and> invert)) stmts
                     else if policy = ''all'' then
                       filter (\<lambda>st. let found_genes = found_all filter_list (agents_of st)
                                    in (found_genes \<and> \<not> invert) \<or> (\<not> found_genes \<and> invert)) stmts
                     else stmts)
              in Inr (stmts_out, stmts)))"

definition filter_concept_names :: "statement list \<Rightarrow> string list \<Rightarrow> string \<Rightarrow> bool \<Rightarrow> statement list" where
  "filter_concept_names stmts_in name_list policy invert =
     (if policy = ''one'' then
        filter (\<lambda>st. let found = found_one name_list (agent_list st)
                     in (found \<and> \<not> invert) \<or> (\<not> found \<and> invert)) stmts_in
      else if policy = ''all'' then
        filter (\<lambda>st. let found = found_all name_list (agent_list st)
                     in (found \<and> \<not> invert) \<or> (\<not> found \<and> invert)) stmts_in
      else stmts_in)"

definition endswith :: "string \<Rightarrow> string \<Rightarrow> bool" where
  "endswith s e = (length e \<le> length s \<and> drop (length s - length e) s = e)"

text \<open>
  \<^verbatim>\<open>meets_criterion\<close>: \<^verbatim>\<open>entry[0][0]\<close> of an empty list raises \<^verbatim>\<open>IndexError\<close>,
  \<^verbatim>\<open>None.endswith\<close> raises \<^verbatim>\<open>AttributeError\<close> (it is called once for each value).
\<close>

definition meets_criterion :: "string \<Rightarrow> string list \<Rightarrow> bool \<Rightarrow> bool \<Rightarrow> agent \<Rightarrow> py_error + bool" where
  "meets_criterion namespace vals invert match_suffix ag =
     (case map_of (db_refs ag) namespace of
        None \<Rightarrow> Inr False
      | Some v \<Rightarrow>
          (case (case v of
                   DbScored [] \<Rightarrow> Inl IndexError
                 | DbScored (c # cs) \<Rightarrow> Inr (Some (fst c))
                 | DbStr s \<Rightarrow> Inr (Some s)
                 | DbNone \<Rightarrow> Inr None) of
             Inl e \<Rightarrow> Inl e
           | Inr entry \<Rightarrow>
               (if match_suffix then
                  (case entry of
                     None \<Rightarrow> (if vals = [] then Inr (False \<noteq> invert) else Inl AttributeError)
                   | Some s \<Rightarrow> Inr ((\<exists>e \<in> set vals. endswith s e) \<noteq> invert))
                else
                  (case entry of
                     None \<Rightarrow> Inr (False \<noteq> invert)
                   | Some s \<Rightarrow> Inr ((s \<in> set vals) \<noteq> invert)))))"

text \<open>\<^verbatim>\<open>[meets_criterion(ag) for ag in s.agent_list() if ag is not None]\<close>.\<close>

fun criteria :: "(agent \<Rightarrow> py_error + bool) \<Rightarrow> agent option list \<Rightarrow> py_error + bool list" where
  "criteria c [] = Inr []"
| "criteria c (None # ags) = criteria c ags"
| "criteria c (Some ag # ags) =
     (case c ag of
        Inl e \<Rightarrow> Inl e
      | Inr b \<Rightarrow> (case criteria c ags of Inl e \<Rightarrow> Inl e | Inr bs \<Rightarrow> Inr (b # bs)))"

fun filter_enough :: "bool \<Rightarrow> (agent \<Rightarrow> py_error + bool) \<Rightarrow> statement list \<Rightarrow> py_error + statement list" where
  "filter_enough all_policy c [] = Inr []"
| "filter_enough all_policy c (s # stmts) =
     (case criteria c (agent_list s) of
        Inl e \<Rightarrow> Inl e
      | Inr bs \<Rightarrow>
          (case filter_enough all_policy c stmts of
             Inl e \<Rightarrow> Inl e
           | Inr out \<Rightarrow>
               Inr (if (if all_policy then list_all id bs else list_ex id bs) then s # out else out)))"

text \<open>The result is \<open>None\<close> where the function returns without a value.\<close>

definition filter_by_db_refs ::
  "statement list \<Rightarrow> string \<Rightarrow> string list \<Rightarrow> string \<Rightarrow> bool \<Rightarrow> bool \<Rightarrow> py_error + statement list option" where
  "filter_by_db_refs stmts_in namespace vals policy invert match_suffix =
     (if policy \<noteq> ''one'' \<and> policy \<noteq> ''all'' then Inr None
      else (case filter_enough (policy = ''all'') (meets_criterion namespace vals invert match_suffix) stmts_in of
              Inl e \<Rightarrow> Inl e
            | Inr stmts_out \<Rightarrow> Inr (Some stmts_out)))"

subsection \<open>\<^verbatim>\<open>filter_inconsequential_mods\<close>, \<^verbatim>\<open>filter_inconsequential_acts\<close>\<close>











section \<open>Auxiliary definitions\<close>

text \<open>
  A linear order that extends Python's comparison of keys: where Python compares two
  keys, it agrees with the order of their ranks.
\<close>

fun kelem_rank :: "kelem \<Rightarrow> nat \<times> string \<times> string list \<times> bool" where
  "kelem_rank (KStr s) = (0, s, [], False)"
| "kelem_rank (KTup t) = (1, [], t, False)"
| "kelem_rank (KBool b) = (2, [], [], b)"

fun key_rank :: "sort_key \<Rightarrow> int \<times> (nat \<times> string \<times> string list \<times> bool) list \<times> int \<times> string" where
  "key_rank (a, i, c, v) = (a, map kelem_rank i, c, v)"

text \<open>The group that \<open>process_row\<close> yields for a row it does not drop.\<close>

definition row_group :: "(int \<rightharpoonup> int) option \<Rightarrow> accum \<Rightarrow> key \<times> statement list \<Rightarrow> group" where
  "row_group ev acc row =
     ((arg_counts acc (snd (fst row)), snd (fst row), stmt_counts acc (fst row), fst (fst row)),
      fst (fst row), sorted_members ev (snd row))"

text \<open>The invariant of the accumulation loop.\<close>

definition rows_inv :: "(int \<rightharpoonup> int) option \<Rightarrow> accum \<Rightarrow> bool" where
  "rows_inv ev acc \<longleftrightarrow>
     distinct (map fst (stmt_rows acc)) \<and>
     (\<forall>k. stmt_counts acc k =
        (case map_of (stmt_rows acc) k of None \<Rightarrow> 0 | Some ms \<Rightarrow> sum_list (map (ev_count ev) ms)))"

fun key_of_sort_key :: "sort_key \<Rightarrow> key" where
  "key_of_sort_key (a, i, c, v) = (v, i)"

text \<open>
  What \<open>filter_grounded_only\<close> and \<open>filter_gene_list\<close> do to a statement when they remove
  bound conditions: every present role filler keeps only the bound conditions whose
  agent meets the criterion. \<open>agents_pass\<close>: every present role filler meets it.
\<close>

definition agents_pass :: "(agent \<Rightarrow> bool) \<Rightarrow> statement \<Rightarrow> bool" where
  "agents_pass criterion st =
     list_all (\<lambda>a. case a of None \<Rightarrow> True | Some ag \<Rightarrow> criterion ag) (agent_list st)"

definition prune_bound :: "(agent \<Rightarrow> bool) \<Rightarrow> statement \<Rightarrow> statement" where
  "prune_bound keep st =
     set_agents st (map (map_option (\<lambda>ag. remove_bound_conditions ag keep)) (agent_list st))"

text \<open>
  The hierarchy links that \<open>filter_belief\<close> leaves in a statement it returns, and the
  keep criterion of \<open>filter_gene_list\<close> for bound conditions.
\<close>

definition kept_links :: "rat \<Rightarrow> store \<Rightarrow> ref list \<Rightarrow> ref list" where
  "kept_links belief_cutoff h links = filter (\<lambda>st. belief_cutoff \<le> belief (h st)) links"

definition gene_keep :: "(string \<Rightarrow> string list) \<Rightarrow> string list \<Rightarrow> bool \<Rightarrow> bool \<Rightarrow> agent \<Rightarrow> bool" where
  "gene_keep family_ids gene_list allow_families invert a =
     (let filter_list = gene_list @ (if allow_families then concat (map family_ids gene_list) else [])
      in if \<not> invert then name a \<in> set filter_list else name a \<notin> set filter_list)"

section \<open>Example inputs\<close>

definition ev_item :: evidence where
  "ev_item = \<lparr>source_api = ''reach'', epistemics = []\<rparr>"

definition stmt_with :: "body \<Rightarrow> nat \<Rightarrow> statement" where
  "stmt_with b n = \<lparr>body = b, evidence = replicate n ev_item, shallow_hash = 0, belief = 1,
                    supports = [], supported_by = []\<rparr>"

definition complex_abc :: statement where
  "complex_abc = stmt_with (Complex [Some (new_agent ''A''), Some (new_agent ''B''), Some (new_agent ''C'')]) 5"

definition complex_ab :: "nat \<Rightarrow> statement" where
  "complex_ab n = stmt_with (Complex [Some (new_agent ''A''), Some (new_agent ''B'')]) n"

definition phos_ab :: statement where
  "phos_ab = stmt_with (Modification ''Phosphorylation'' False (Some (new_agent ''A'')) (new_agent ''B'') None None) 1"

definition dephos_ab :: statement where
  "dephos_ab = stmt_with (Modification ''Dephosphorylation'' True (Some (new_agent ''A'')) (new_agent ''B'') None None) 1"

definition phos_ab2 :: statement where
  "phos_ab2 = stmt_with (Modification ''Phosphorylation'' False (Some (new_agent ''A'')) (new_agent ''B'') None None) 2"

definition phos_none_b :: statement where
  "phos_none_b = stmt_with (Modification ''Phosphorylation'' False None (new_agent ''B'') None None) 1"

definition conversion_abc :: statement where
  "conversion_abc = stmt_with (Conversion (Some (new_agent ''A'')) [Some (new_agent ''B'')] [Some (new_agent ''C'')]) 1"

definition phos_ad_no_evidence :: statement where
  "phos_ad_no_evidence = stmt_with (Modification ''Phosphorylation'' False (Some (new_agent ''A'')) (new_agent ''D'') None None) 0"


definition complex_groups :: "group list" where
  "complex_groups =
     [((6, [KStr ''B'', KStr ''A''], 6, ''Complex''), ''Complex'', [complex_abc, complex_ab 1]),
      ((6, [KStr ''A'', KStr ''B''], 6, ''Complex''), ''Complex'', [complex_abc, complex_ab 1]),
      ((5, [KStr ''A'', KStr ''B'', KStr ''C''], 5, ''Complex''), ''Complex'', [complex_abc])]"

definition phos_groups :: "group list" where
  "phos_groups =
     [((2, [KStr ''A'', KStr ''B''], 1, ''Phosphorylation''), ''Phosphorylation'', [phos_ab]),
      ((2, [KStr ''A'', KStr ''B''], 1, ''Dephosphorylation''), ''Dephosphorylation'', [dephos_ab])]"

text \<open>An external family lookup that knows no family.\<close>

definition no_families :: "string \<Rightarrow> string list" where
  "no_families gene = []"

text \<open>
  A store with two statements that refer to each other, and a statement whose agent has a
  bound partner, before and after the partner is removed.
\<close>

definition linked_store :: store where
  "linked_store r =
     (if r = 0 then \<lparr>body = body phos_ab, evidence = [ev_item], shallow_hash = 0, belief = 9 / 10,
                       supports = [1], supported_by = []\<rparr>
      else \<lparr>body = body dephos_ab, evidence = [ev_item], shallow_hash = 1, belief = 1 / 10,
             supports = [], supported_by = [0]\<rparr>)"

definition bound_stmt :: statement where
  "bound_stmt = stmt_with (Default ''Translocation'' [Some (Agent ''A'' [] [] None [(new_agent ''X'', True)])]) 1"

definition unbound_stmt :: statement where
  "unbound_stmt = stmt_with (Default ''Translocation'' [Some (Agent ''A'' [] [] None [])]) 1"







section \<open>Properties of grouping and ranking\<close>


lemma kelem_rank_inj: "kelem_rank x = kelem_rank y \<longleftrightarrow> x = y"
  by (cases x; cases y) simp_all

lemma map_kelem_rank_inj: "map kelem_rank xs = map kelem_rank ys \<longleftrightarrow> xs = ys"
proof -
  have "inj kelem_rank" by (rule injI) (simp add: kelem_rank_inj)
  then show ?thesis by (rule inj_map_eq_map)
qed

lemma key_rank_inj: "key_rank k = key_rank k' \<longleftrightarrow> k = k'"
  by (cases k; cases k') (simp add: map_kelem_rank_inj)

lemma elem_lt_rank: "elem_lt x y = Inr r \<Longrightarrow> r = (kelem_rank x < kelem_rank y)"
  by (cases x; cases y) auto

lemma tuple_lt_rank: "tuple_lt xs ys = Inr r \<Longrightarrow> r = (map kelem_rank xs < map kelem_rank ys)"
proof (induction xs ys rule: tuple_lt.induct)
  case (4 x xs y ys)
  then show ?case
    by (cases "x = y") (auto simp: kelem_rank_inj dest: elem_lt_rank)
qed simp_all

lemma key_lt_rank: "key_lt k k' = Inr r \<Longrightarrow> r = (key_rank k < key_rank k')"
proof -
  obtain a i c v where k: "k = (a, i, c, v)" by (cases k)
  obtain a' i' c' v' where k': "k' = (a', i', c', v')" by (cases k')
  assume h: "key_lt k k' = Inr r"
  show ?thesis
  proof (cases "a = a'")
    case False
    with h show ?thesis unfolding k k' by (auto simp: less_prod_def' simp del: less_prod_simp)
  next
    case aa: True
    show ?thesis
    proof (cases "i = i'")
      case False
      with h aa have "tuple_lt i i' = Inr r" unfolding k k' by simp
      then have "r = (map kelem_rank i < map kelem_rank i')" by (rule tuple_lt_rank)
      with aa False show ?thesis unfolding k k' by (simp add: map_kelem_rank_inj less_prod_def' del: less_prod_simp)
    next
      case ii: True
      with h aa show ?thesis unfolding k k' by (cases "c = c'") (auto simp: less_prod_def' simp del: less_prod_simp)
    qed
  qed
qed

lemma insort_rev_Cons:
  assumes "insort_rev lt f x (y # ys) = Inr zs"
  shows "(lt (f x) (f y) = Inr True \<and> (\<exists>zs'. insort_rev lt f x ys = Inr zs' \<and> zs = y # zs'))
       \<or> (lt (f x) (f y) = Inr False \<and> zs = x # y # ys)"
proof (cases "lt (f x) (f y)")
  case (Inl e)
  with assms show ?thesis by simp
next
  case (Inr r)
  show ?thesis
  proof (cases r)
    case True
    with Inr assms show ?thesis by (cases "insort_rev lt f x ys") simp_all
  next
    case False
    with Inr assms show ?thesis by simp
  qed
qed

lemma insort_rev_set: "insort_rev lt f x ys = Inr zs \<Longrightarrow> set zs = insert x (set ys)"
proof (induction ys arbitrary: zs)
  case Nil
  then show ?case by auto
next
  case (Cons y ys)
  from insort_rev_Cons[OF Cons.prems] show ?case
  proof
    assume "lt (f x) (f y) = Inr True \<and> (\<exists>zs'. insort_rev lt f x ys = Inr zs' \<and> zs = y # zs')"
    then obtain zs' where z: "insort_rev lt f x ys = Inr zs'" "zs = y # zs'" by blast
    from Cons.IH[OF z(1)] z(2) show ?thesis by auto
  next
    assume "lt (f x) (f y) = Inr False \<and> zs = x # y # ys"
    then show ?thesis by auto
  qed
qed

lemma sorted_rev_Cons:
  assumes "sorted_rev lt f (x # xs) = Inr ys"
  shows "\<exists>ys'. sorted_rev lt f xs = Inr ys' \<and> insort_rev lt f x ys' = Inr ys"
  using assms by (cases "sorted_rev lt f xs") simp_all


lemma sorted_rev_set: "sorted_rev lt f xs = Inr ys \<Longrightarrow> set ys = set xs"
proof (induction xs arbitrary: ys)
  case Nil
  then show ?case by simp
next
  case (Cons x xs)
  from sorted_rev_Cons[OF Cons.prems] obtain ys' where
    y: "sorted_rev lt f xs = Inr ys'" "insort_rev lt f x ys' = Inr ys" by blast
  from Cons.IH[OF y(1)] insort_rev_set[OF y(2)] show ?case by simp
qed

lemma insort_rev_length: "insort_rev lt f x ys = Inr zs \<Longrightarrow> length zs = Suc (length ys)"
proof (induction ys arbitrary: zs)
  case Nil
  then show ?case by auto
next
  case (Cons y ys)
  from insort_rev_Cons[OF Cons.prems] show ?case
  proof
    assume "lt (f x) (f y) = Inr True \<and> (\<exists>zs'. insort_rev lt f x ys = Inr zs' \<and> zs = y # zs')"
    then obtain zs' where z: "insort_rev lt f x ys = Inr zs'" "zs = y # zs'" by blast
    from Cons.IH[OF z(1)] z(2) show ?thesis by simp
  next
    assume "lt (f x) (f y) = Inr False \<and> zs = x # y # ys"
    then show ?thesis by simp
  qed
qed

lemma sorted_rev_length: "sorted_rev lt f xs = Inr ys \<Longrightarrow> length ys = length xs"
proof (induction xs arbitrary: ys)
  case Nil
  then show ?case by simp
next
  case (Cons x xs)
  from sorted_rev_Cons[OF Cons.prems] obtain ys' where
    y: "sorted_rev lt f xs = Inr ys'" "insort_rev lt f x ys' = Inr ys" by blast
  from Cons.IH[OF y(1)] insort_rev_length[OF y(2)] show ?case by simp
qed

lemma insort_rev_sorted:
  fixes g :: "'k \<Rightarrow> 'r::linorder"
  assumes ag: "\<And>a b r. lt a b = Inr r \<Longrightarrow> r = (g a < g b)"
  shows "insort_rev lt f x ys = Inr zs \<Longrightarrow> sorted_wrt (\<lambda>u v. g (f v) \<le> g (f u)) ys
         \<Longrightarrow> sorted_wrt (\<lambda>u v. g (f v) \<le> g (f u)) zs"
proof (induction ys arbitrary: zs)
  case Nil
  then show ?case by auto
next
  case (Cons y ys)
  from insort_rev_Cons[OF Cons.prems(1)] show ?case
  proof
    assume "lt (f x) (f y) = Inr True \<and> (\<exists>zs'. insort_rev lt f x ys = Inr zs' \<and> zs = y # zs')"
    then obtain zs' where c: "lt (f x) (f y) = Inr True"
      and z: "insort_rev lt f x ys = Inr zs'" "zs = y # zs'" by blast
    from ag[OF c] have xy: "g (f x) \<le> g (f y)" by simp
    have s: "set zs' = insert x (set ys)" using z(1) by (rule insort_rev_set)
    have "sorted_wrt (\<lambda>u v. g (f v) \<le> g (f u)) zs'"
      using Cons.IH[OF z(1)] Cons.prems(2) by simp
    moreover have "\<forall>v\<in>set zs'. g (f v) \<le> g (f y)"
      using s xy Cons.prems(2) by simp
    ultimately show ?thesis unfolding z(2) by simp
  next
    assume "lt (f x) (f y) = Inr False \<and> zs = x # y # ys"
    then have c: "lt (f x) (f y) = Inr False" and z: "zs = x # y # ys" by blast+
    from ag[OF c] have yx: "g (f y) \<le> g (f x)" by simp
    have "\<forall>v\<in>set ys. g (f v) \<le> g (f x)"
      using yx Cons.prems(2) by auto
    then show ?thesis unfolding z using yx Cons.prems(2) by simp
  qed
qed

lemma sorted_rev_sorted:
  fixes g :: "'k \<Rightarrow> 'r::linorder"
  assumes ag: "\<And>a b r. lt a b = Inr r \<Longrightarrow> r = (g a < g b)"
  shows "sorted_rev lt f xs = Inr ys \<Longrightarrow> sorted_wrt (\<lambda>u v. g (f v) \<le> g (f u)) ys"
proof (induction xs arbitrary: ys)
  case Nil
  then show ?case by simp
next
  case (Cons x xs)
  from sorted_rev_Cons[OF Cons.prems] obtain ys' where
    y: "sorted_rev lt f xs = Inr ys'" "insort_rev lt f x ys' = Inr ys" by blast
  show ?case using insort_rev_sorted[of lt g f x ys' ys, OF ag y(2)] Cons.IH[OF y(1)] by blast
qed

lemma sorted_rev_distinct:
  assumes "sorted_rev lt f xs = Inr ys" "distinct (map f xs)"
  shows "distinct (map f ys)"
proof -
  have "set (map f ys) = set (map f xs)" using sorted_rev_set[OF assms(1)] by simp
  moreover have "length (map f ys) = length (map f xs)" using sorted_rev_length[OF assms(1)] by simp
  moreover have "card (set (map f xs)) = length (map f xs)" using assms(2) by (rule distinct_card)
  ultimately have "card (set (map f ys)) = length (map f ys)" by simp
  then show ?thesis by (rule card_distinct)
qed


lemma process_rows_Cons:
  assumes "process_rows ev acc (row # rows) = Inr gs"
  shows "\<exists>g gs'. process_row ev acc row = Inr g \<and> process_rows ev acc rows = Inr gs'
           \<and> gs = (case g of None \<Rightarrow> gs' | Some grp \<Rightarrow> grp # gs')"
proof (cases "process_row ev acc row")
  case (Inl e)
  with assms show ?thesis by simp
next
  case (Inr g)
  with assms show ?thesis by (cases "process_rows ev acc rows") simp_all
qed

lemma process_rows_mem:
  "process_rows ev acc rows = Inr gs \<Longrightarrow>
   grp \<in> set gs \<longleftrightarrow> (\<exists>row\<in>set rows. process_row ev acc row = Inr (Some grp))"
proof (induction rows arbitrary: gs)
  case Nil
  then show ?case by simp
next
  case (Cons row rows)
  from process_rows_Cons[OF Cons.prems] obtain g gs' where
    h: "process_row ev acc row = Inr g" "process_rows ev acc rows = Inr gs'"
       "gs = (case g of None \<Rightarrow> gs' | Some grp \<Rightarrow> grp # gs')" by blast
  from Cons.IH[OF h(2)] h(1) h(3) show ?case by (cases g) auto
qed

lemma process_rows_no_error:
  "process_rows ev acc rows = Inr gs \<Longrightarrow> row \<in> set rows \<Longrightarrow> \<exists>g. process_row ev acc row = Inr g"
proof (induction rows arbitrary: gs)
  case Nil
  then show ?case by simp
next
  case (Cons r rows)
  from process_rows_Cons[OF Cons.prems(1)] obtain g gs' where
    h: "process_row ev acc r = Inr g" "process_rows ev acc rows = Inr gs'" by blast
  from Cons.prems(2) Cons.IH[OF h(2)] h(1) show ?case by auto
qed

lemma process_row_cases:
  "(\<exists>e. process_row ev acc row = Inl e \<and> all_many_names (snd row) = Inl e)
   \<or> process_row ev acc row = Inr None \<and> all_many_names (snd row) = Inr True
       \<and> fst (fst row) = ''Complex'' \<and> stmt_counts acc (fst row) = arg_counts acc (snd (fst row))
       \<and> length (snd (fst row)) \<le> 2
   \<or> process_row ev acc row = Inr (Some (row_group ev acc row))"
proof (cases "fst (fst row) = ''Complex'' \<and> stmt_counts acc (fst row) = arg_counts acc (snd (fst row))
       \<and> length (snd (fst row)) \<le> 2")
  case False
  then show ?thesis by (auto simp: process_row_def row_group_def Let_def)
next
  case c: True
  show ?thesis
  proof (cases "all_many_names (snd row)")
    case (Inl e)
    with c show ?thesis by (simp add: process_row_def Let_def)
  next
    case (Inr r)
    with c show ?thesis by (cases r) (simp_all add: process_row_def row_group_def Let_def)
  qed
qed

lemma process_row_Some: "process_row ev acc row = Inr (Some grp) \<Longrightarrow> grp = row_group ev acc row"
  using process_row_cases[of ev acc row] by auto

lemma process_row_suppressed:
  assumes "fst (fst row) = ''Complex''" "stmt_counts acc (fst row) = arg_counts acc (snd (fst row))"
    "length (snd (fst row)) \<le> 2" "all_many_names (snd row) = Inr True"
  shows "process_row ev acc row = Inr None"
  using assms by (simp add: process_row_def Let_def)

lemma process_row_kept:
  assumes "process_row ev acc row = Inr g" "all_many_names (snd row) \<noteq> Inr True"
  shows "g = Some (row_group ev acc row)"
  using process_row_cases[of ev acc row] assms by auto

lemma all_many_names_True:
  "all_many_names stmts = Inr True \<Longrightarrow> s \<in> set stmts \<Longrightarrow> \<exists>n. n_names s = Inr n \<and> 2 < n"
proof (induction stmts)
  case Nil
  then show ?case by simp
next
  case (Cons t stmts)
  from Cons.prems(1) obtain n where n: "n_names t = Inr n" by (cases "n_names t") simp_all
  with Cons.prems(1) obtain r where r: "all_many_names stmts = Inr r"
    by (cases "all_many_names stmts") simp_all
  from Cons.prems(1) n r have "2 < n" "r" by simp_all
  with Cons.prems(2) Cons.IH n r show ?case by auto
qed

lemma all_many_names_TrueI:
  "\<forall>s\<in>set stmts. \<exists>n. n_names s = Inr n \<and> 2 < n \<Longrightarrow> all_many_names stmts = Inr True"
  by (induction stmts) auto


lemma rows_append_map_fst:
  "map fst (rows_append k s rows) =
     (if k \<in> set (map fst rows) then map fst rows else map fst rows @ [k])"
proof (induction rows)
  case Nil
  show ?case by simp
next
  case (Cons r rows)
  obtain k' ss where r: "r = (k', ss)" by (cases r)
  show ?case
  proof (cases "k = k'")
    case True
    with r show ?thesis by simp
  next
    case False
    with r Cons.IH show ?thesis by simp
  qed
qed

lemma rows_append_distinct:
  "distinct (map fst rows) \<Longrightarrow> distinct (map fst (rows_append k s rows))"
  unfolding rows_append_map_fst by simp

lemma map_of_rows_append:
  "map_of (rows_append k s rows) =
     (map_of rows)(k \<mapsto> (case map_of rows k of None \<Rightarrow> [s] | Some ms \<Rightarrow> ms @ [s]))"
proof (induction rows)
  case Nil
  then show ?case by simp
next
  case (Cons r rows)
  obtain k' ss where r: "r = (k', ss)" by (cases r)
  show ?case
  proof (cases "k = k'")
    case True
    with r show ?thesis by (auto simp: fun_eq_iff)
  next
    case False
    with r Cons.IH show ?thesis by (auto simp: fun_eq_iff)
  qed
qed

lemma add_keyed_rows: "stmt_rows (add_keyed ev acc ks) = rows_append (fst ks) (snd ks) (stmt_rows acc)"
  by (simp add: add_keyed_def Let_def)

lemma add_keyed_counts:
  "stmt_counts (add_keyed ev acc ks) = (stmt_counts acc)(fst ks := stmt_counts acc (fst ks) + ev_count ev (snd ks))"
  by (simp add: add_keyed_def Let_def add_count_def)

lemma add_keyed_inv:
  assumes "rows_inv ev acc"
  shows "rows_inv ev (add_keyed ev acc ks)"
proof -
  from assms have d: "distinct (map fst (stmt_rows acc))"
    and c: "\<And>k. stmt_counts acc k =
        (case map_of (stmt_rows acc) k of None \<Rightarrow> 0 | Some ms \<Rightarrow> sum_list (map (ev_count ev) ms))"
    unfolding rows_inv_def by blast+
  have "distinct (map fst (stmt_rows (add_keyed ev acc ks)))"
    unfolding add_keyed_rows using d by (rule rows_append_distinct)
  moreover have "stmt_counts (add_keyed ev acc ks) k =
      (case map_of (stmt_rows (add_keyed ev acc ks)) k of None \<Rightarrow> 0
       | Some ms \<Rightarrow> sum_list (map (ev_count ev) ms))" for k
  proof (cases "k = fst ks")
    case True
    show ?thesis unfolding add_keyed_rows add_keyed_counts map_of_rows_append
      using True c[of "fst ks"] by (cases "map_of (stmt_rows acc) (fst ks)") simp_all
  next
    case False
    show ?thesis unfolding add_keyed_rows add_keyed_counts map_of_rows_append
      using False c[of k] by simp
  qed
  ultimately show ?thesis unfolding rows_inv_def by blast
qed

lemma foldl_add_keyed_inv:
  "rows_inv ev acc \<Longrightarrow> rows_inv ev (foldl (add_keyed ev) acc kss)"
  by (induction kss arbitrary: acc) (simp_all add: add_keyed_inv)

lemma accumulate_inv: "rows_inv ev (accumulate ev stmt_list)"
  unfolding accumulate_def
  by (rule foldl_add_keyed_inv) (simp add: rows_inv_def accum_init_def)

lemma stmt_rows_distinct: "distinct (map fst (stmt_rows (accumulate ev stmt_list)))"
  using accumulate_inv[of ev stmt_list] unfolding rows_inv_def by blast

lemma stmt_counts_sum:
  assumes "(k, ms) \<in> set (stmt_rows (accumulate ev stmt_list))"
  shows "stmt_counts (accumulate ev stmt_list) k = sum_list (map (ev_count ev) ms)"
proof -
  have "map_of (stmt_rows (accumulate ev stmt_list)) k = Some ms"
    using assms stmt_rows_distinct by (simp add: map_of_eq_Some_iff)
  moreover have "\<forall>k. stmt_counts (accumulate ev stmt_list) k =
        (case map_of (stmt_rows (accumulate ev stmt_list)) k of None \<Rightarrow> 0
         | Some ms \<Rightarrow> sum_list (map (ev_count ev) ms))"
    using accumulate_inv[of ev stmt_list] unfolding rows_inv_def by (rule conjunct2)
  then have "stmt_counts (accumulate ev stmt_list) k =
        (case map_of (stmt_rows (accumulate ev stmt_list)) k of None \<Rightarrow> 0
         | Some ms \<Rightarrow> sum_list (map (ev_count ev) ms))" by (rule spec)
  ultimately show ?thesis by simp
qed

lemma key_of_row_group: "key_of_sort_key (fst (row_group ev acc row)) = fst row"
  by (simp add: row_group_def)

lemma process_rows_keys:
  assumes "process_rows ev acc rows = Inr gs" "g \<in> set gs"
  shows "\<exists>row\<in>set rows. g = row_group ev acc row"
  using assms process_rows_mem[OF assms(1), of g] process_row_Some by blast

lemma process_rows_distinct:
  "process_rows ev acc rows = Inr gs \<Longrightarrow> distinct (map fst rows) \<Longrightarrow> distinct (map fst gs)"
proof (induction rows arbitrary: gs)
  case Nil
  then show ?case by simp
next
  case (Cons row rows)
  from process_rows_Cons[OF Cons.prems(1)] obtain g gs' where
    h: "process_row ev acc row = Inr g" "process_rows ev acc rows = Inr gs'"
       "gs = (case g of None \<Rightarrow> gs' | Some grp \<Rightarrow> grp # gs')" by blast
  have d: "distinct (map fst gs')" using Cons.IH[OF h(2)] Cons.prems(2) by simp
  show ?case
  proof (cases g)
    case None
    with h(3) d show ?thesis by simp
  next
    case (Some grp)
    with h(1) have grp: "grp = row_group ev acc row" by (simp add: process_row_Some)
    have "fst grp \<notin> set (map fst gs')"
    proof
      assume "fst grp \<in> set (map fst gs')"
      then obtain g' where g': "g' \<in> set gs'" "fst g' = fst grp" by auto
      from process_rows_keys[OF h(2) g'(1)] obtain row' where
        r: "row' \<in> set rows" "g' = row_group ev acc row'" by blast
      have "fst row' = fst row"
        using g'(2) r(2) grp key_of_row_group[of ev acc row] key_of_row_group[of ev acc row'] by simp
      moreover have "fst row' \<in> set (map fst rows)" using r(1) by simp
      ultimately show False using Cons.prems(2) by simp
    qed
    with Some h(3) d show ?thesis by simp
  qed
qed


lemma group_and_sort_Inr:
  assumes "group_and_sort_statements stmt_list ev = Inr out"
  shows "\<exists>gs. process_rows ev (accumulate ev stmt_list) (stmt_rows (accumulate ev stmt_list)) = Inr gs
           \<and> sorted_rev key_lt fst gs = Inr out"
proof (cases "process_rows ev (accumulate ev stmt_list) (stmt_rows (accumulate ev stmt_list))")
  case (Inl e)
  with assms show ?thesis by (simp add: group_and_sort_statements_def Let_def)
next
  case (Inr gs)
  with assms show ?thesis by (simp add: group_and_sort_statements_def Let_def)
qed


section \<open>Evaluation on the example inputs\<close>

lemma complex_out: "group_and_sort_statements [complex_abc, complex_ab 1] None =
   Inr [((6, [KStr ''B'', KStr ''A''], 6, ''Complex''), ''Complex'', [complex_abc, complex_ab 1]),
        ((6, [KStr ''A'', KStr ''B''], 6, ''Complex''), ''Complex'', [complex_abc, complex_ab 1]),
        ((5, [KStr ''A'', KStr ''B'', KStr ''C''], 5, ''Complex''), ''Complex'', [complex_abc])]"
  by code_simp

lemma complex_rows: "stmt_rows (accumulate None [complex_abc, complex_ab 1]) =
   [((''Complex'', [KStr ''A'', KStr ''B'']), [complex_abc, complex_ab 1]),
    ((''Complex'', [KStr ''A'', KStr ''C'']), [complex_abc]),
    ((''Complex'', [KStr ''B'', KStr ''A'']), [complex_abc, complex_ab 1]),
    ((''Complex'', [KStr ''B'', KStr ''C'']), [complex_abc]),
    ((''Complex'', [KStr ''C'', KStr ''A'']), [complex_abc]),
    ((''Complex'', [KStr ''C'', KStr ''B'']), [complex_abc]),
    ((''Complex'', [KStr ''A'', KStr ''B'', KStr ''C'']), [complex_abc])]"
  by code_simp

lemma complex_names: "n_names complex_abc = Inr 3" "n_names (complex_ab 1) = Inr 2"
  by code_simp+

lemma complex_weights:
  "stmt_counts (accumulate None [complex_abc, complex_ab 1]) (''Complex'', [KStr ''A'', KStr ''C'']) = 5"
  "arg_counts (accumulate None [complex_abc, complex_ab 1]) [KStr ''A'', KStr ''C''] = 5"
  "arg_counts (accumulate None [complex_abc, complex_ab 1]) [KStr ''A'', KStr ''B''] = 6"
  "sum_list (map (ev_count None) [complex_abc, complex_ab 1]) = 6"
  "sorted_members None [complex_abc, complex_ab 1] = [complex_abc, complex_ab 1]"
  by code_simp+

lemma phos_out: "group_and_sort_statements [phos_ab, dephos_ab] None =
    Inr [((2, [KStr ''A'', KStr ''B''], 1, ''Phosphorylation''), ''Phosphorylation'', [phos_ab]),
         ((2, [KStr ''A'', KStr ''B''], 1, ''Dephosphorylation''), ''Dephosphorylation'', [dephos_ab])]"
  by code_simp

section \<open>The claims about grouping and ranking\<close>

text \<open>
  C1. A two-name Complex group is dropped from the output of
  \<open>group_and_sort_statements\<close> if its accumulated group weight equals the accumulated
  argument weight of its role tuple and every member statement has more than two
  distinct participant names. If the group has a member with exactly two participant
  names, it is in the output, with the sum of the weights of its members as group
  weight. Both hold whenever the function returns.
\<close>

theorem suppression_rule:
  assumes out: "group_and_sort_statements stmt_list ev_totals = Inr out"
    and row: "((''Complex'', [KStr a, KStr b]), stmts) \<in> set (stmt_rows (accumulate ev_totals stmt_list))"
  shows "(stmt_counts (accumulate ev_totals stmt_list) (''Complex'', [KStr a, KStr b])
            = arg_counts (accumulate ev_totals stmt_list) [KStr a, KStr b]
          \<and> (\<forall>s\<in>set stmts. \<exists>n. n_names s = Inr n \<and> 2 < n)
          \<longrightarrow> (\<forall>g\<in>set out. \<not> (fst (snd g) = ''Complex'' \<and> fst (snd (fst g)) = [KStr a, KStr b])))
       \<and> ((\<exists>s\<in>set stmts. n_names s = Inr 2)
          \<longrightarrow> ((arg_counts (accumulate ev_totals stmt_list) [KStr a, KStr b], [KStr a, KStr b],
                 sum_list (map (ev_count ev_totals) stmts), ''Complex''),
                ''Complex'', sorted_members ev_totals stmts) \<in> set out)"
proof -
  let ?acc = "accumulate ev_totals stmt_list"
  let ?key = "(''Complex'', [KStr a, KStr b])"
  let ?row = "(?key, stmts)"
  from group_and_sort_Inr[OF out] obtain gs where
    gs: "process_rows ev_totals ?acc (stmt_rows ?acc) = Inr gs" "sorted_rev key_lt fst gs = Inr out"
    by blast
  have so: "set out = set gs" using gs(2) by (rule sorted_rev_set)
  have d: "distinct (map fst (stmt_rows ?acc))" by (rule stmt_rows_distinct)
  have dropped: "\<forall>g\<in>set out. \<not> (fst (snd g) = ''Complex'' \<and> fst (snd (fst g)) = [KStr a, KStr b])"
    if eq: "stmt_counts ?acc ?key = arg_counts ?acc [KStr a, KStr b]"
      and many: "\<forall>s\<in>set stmts. \<exists>n. n_names s = Inr n \<and> 2 < n"
  proof
    fix g assume g: "g \<in> set out"
    show "\<not> (fst (snd g) = ''Complex'' \<and> fst (snd (fst g)) = [KStr a, KStr b])"
    proof
      assume k: "fst (snd g) = ''Complex'' \<and> fst (snd (fst g)) = [KStr a, KStr b]"
      from g so have "g \<in> set gs" by simp
      with process_rows_mem[OF gs(1), of g] obtain row' where
        r: "row' \<in> set (stmt_rows ?acc)" "process_row ev_totals ?acc row' = Inr (Some g)" by blast
      from r(2) have gr: "g = row_group ev_totals ?acc row'" by (rule process_row_Some)
      obtain k' ms' where row': "row' = (k', ms')" by (cases row')
      from gr k have "k' = ?key" unfolding row' by (simp add: row_group_def prod_eq_iff)
      with r(1) have "(?key, ms') \<in> set (stmt_rows ?acc)" unfolding row' by simp
      from eq_key_imp_eq_value[OF d this row] have "ms' = stmts" .
      with \<open>k' = ?key\<close> have "row' = ?row" unfolding row' by simp
      moreover have "process_row ev_totals ?acc ?row = Inr None"
        using eq all_many_names_TrueI[OF many] by (intro process_row_suppressed) simp_all
      ultimately show False using r(2) by simp
    qed
  qed
  have kept: "((arg_counts ?acc [KStr a, KStr b], [KStr a, KStr b],
                 sum_list (map (ev_count ev_totals) stmts), ''Complex''),
                ''Complex'', sorted_members ev_totals stmts) \<in> set out"
    if direct: "\<exists>s\<in>set stmts. n_names s = Inr 2"
  proof -
    from process_rows_no_error[OF gs(1) row] obtain g where
      g: "process_row ev_totals ?acc ?row = Inr g" by blast
    have "all_many_names (snd ?row) \<noteq> Inr True"
    proof
      assume "all_many_names (snd ?row) = Inr True"
      then have t: "all_many_names stmts = Inr True" by simp
      from direct obtain s where s: "s \<in> set stmts" "n_names s = Inr 2" by blast
      from all_many_names_True[OF t s(1)] s(2) show False by simp
    qed
    from process_row_kept[OF g this] have "g = Some (row_group ev_totals ?acc ?row)" .
    with g have "process_row ev_totals ?acc ?row = Inr (Some (row_group ev_totals ?acc ?row))" by simp
    with process_rows_mem[OF gs(1), of "row_group ev_totals ?acc ?row"] row
    have "row_group ev_totals ?acc ?row \<in> set gs" by blast
    moreover have "stmt_counts ?acc ?key = sum_list (map (ev_count ev_totals) stmts)"
      using row by (rule stmt_counts_sum)
    ultimately show ?thesis using so by (simp add: row_group_def)
  qed
  from dropped kept show ?thesis by blast
qed

theorem suppression_rule_witness:
  "group_and_sort_statements [complex_abc, complex_ab 1] None = Inr complex_groups
   \<and> ((''Complex'', [KStr ''A'', KStr ''B'']), [complex_abc, complex_ab 1])
        \<in> set (stmt_rows (accumulate None [complex_abc, complex_ab 1]))
   \<and> ((''Complex'', [KStr ''A'', KStr ''C'']), [complex_abc])
        \<in> set (stmt_rows (accumulate None [complex_abc, complex_ab 1]))
   \<and> n_names (complex_ab 1) = Inr 2 \<and> n_names complex_abc = Inr 3
   \<and> stmt_counts (accumulate None [complex_abc, complex_ab 1]) (''Complex'', [KStr ''A'', KStr ''C''])
       = arg_counts (accumulate None [complex_abc, complex_ab 1]) [KStr ''A'', KStr ''C'']
   \<and> ((6, [KStr ''A'', KStr ''B''], 6, ''Complex''), ''Complex'', [complex_abc, complex_ab 1])
        \<in> set complex_groups
   \<and> (''Complex'', [KStr ''A'', KStr ''C''])
        \<notin> set (map (\<lambda>g. (fst (snd g), fst (snd (fst g)))) complex_groups)"
proof -
  let ?in = "[complex_abc, complex_ab 1]"
  have out: "group_and_sort_statements ?in None = Inr complex_groups"
    unfolding complex_groups_def by (rule complex_out)
  have rab: "((''Complex'', [KStr ''A'', KStr ''B'']), ?in) \<in> set (stmt_rows (accumulate None ?in))"
    unfolding complex_rows by simp
  have rac: "((''Complex'', [KStr ''A'', KStr ''C'']), [complex_abc]) \<in> set (stmt_rows (accumulate None ?in))"
    unfolding complex_rows by simp
  have direct: "\<exists>s\<in>set ?in. n_names s = Inr 2" using complex_names by simp
  have many: "\<forall>s\<in>set [complex_abc]. \<exists>n. n_names s = Inr n \<and> 2 < n" using complex_names by simp
  have eq: "stmt_counts (accumulate None ?in) (''Complex'', [KStr ''A'', KStr ''C''])
       = arg_counts (accumulate None ?in) [KStr ''A'', KStr ''C'']"
    using complex_weights by simp
  from suppression_rule[OF out rab] direct
  have "((arg_counts (accumulate None ?in) [KStr ''A'', KStr ''B''], [KStr ''A'', KStr ''B''],
                 sum_list (map (ev_count None) ?in), ''Complex''),
                ''Complex'', sorted_members None ?in) \<in> set complex_groups"
    by blast
  then have kept: "((6, [KStr ''A'', KStr ''B''], 6, ''Complex''), ''Complex'', ?in) \<in> set complex_groups"
    unfolding complex_weights .
  from suppression_rule[OF out rac] eq many
  have dropped: "\<forall>g \<in> set complex_groups.
         \<not> (fst (snd g) = ''Complex'' \<and> fst (snd (fst g)) = [KStr ''A'', KStr ''C''])"
    by blast
  then have "(''Complex'', [KStr ''A'', KStr ''C''])
        \<notin> set (map (\<lambda>g. (fst (snd g), fst (snd (fst g)))) complex_groups)"
    by auto
  with out rab rac complex_names eq kept show ?thesis by blast
qed

text \<open>
  C2, as stated: for one direct Complex over A, B with weight 2 and one Complex over
  A, B, C with weight 5, the claim expects groups (A, C) and (B, C) of weight 5 ranked above
  the group (A, B). The sort keys of the groups returned are these three: no pairwise
  group with C is among them. Nor is one when the two-participant statement is a
  directed one, a Phosphorylation of B by A.
\<close>

theorem end_to_end_counterexample:
  "map_sum id (map fst) (group_and_sort_statements [complex_ab 2, complex_abc] None) =
     Inr [(7, [KStr ''B'', KStr ''A''], 7, ''Complex''),
          (7, [KStr ''A'', KStr ''B''], 7, ''Complex''),
          (5, [KStr ''A'', KStr ''B'', KStr ''C''], 5, ''Complex'')]
   \<and> map_sum id (map fst) (group_and_sort_statements [phos_ab2, complex_abc] None) =
     Inr [(7, [KStr ''A'', KStr ''B''], 5, ''Complex''),
          (7, [KStr ''A'', KStr ''B''], 2, ''Phosphorylation''),
          (5, [KStr ''A'', KStr ''B'', KStr ''C''], 5, ''Complex'')]"
  by code_simp

text \<open>
  C2, amended: for that input the function returns exactly three groups, in this
  order: (B, A) and (A, B), each with weight 7 and both statements as members, then the
  full group (A, B, C) with weight 5. The pairwise groups with C, whose only member is the
  three-participant statement, are suppressed.
\<close>

theorem end_to_end:
  "group_and_sort_statements [complex_ab 2, complex_abc] None =
     Inr [((7, [KStr ''B'', KStr ''A''], 7, ''Complex''), ''Complex'', [complex_abc, complex_ab 2]),
          ((7, [KStr ''A'', KStr ''B''], 7, ''Complex''), ''Complex'', [complex_abc, complex_ab 2]),
          ((5, [KStr ''A'', KStr ''B'', KStr ''C''], 5, ''Complex''), ''Complex'', [complex_abc])]"
  by code_simp

text \<open>
  C3, as stated: two groups that agree in argument weight, role tuple and group weight
  are ordered alphabetically, ascending, by type name. Here they come in the opposite
  order.
\<close>

theorem type_name_order_counterexample:
  "group_and_sort_statements [phos_ab, dephos_ab] None =
     Inr [((2, [KStr ''A'', KStr ''B''], 1, ''Phosphorylation''), ''Phosphorylation'', [phos_ab]),
          ((2, [KStr ''A'', KStr ''B''], 1, ''Dephosphorylation''), ''Dephosphorylation'', [dephos_ab])]
   \<and> ''Dephosphorylation'' < ''Phosphorylation''"
  using phos_out by simp

text \<open>
  C3, amended: the groups returned are in descending order of the tuple
  (argument weight, role tuple, group weight, type name) under Python's comparison: of
  two groups, the later one is never greater than the earlier one and the comparison
  never finds the later one not smaller. In particular, of two groups with the same
  argument weight and role tuple the one with the higher group weight comes first, and
  with the same group weight too, the one with the greater type name comes first
  (descending, as for the other components).
\<close>

theorem groups_descending:
  assumes out: "group_and_sort_statements stmt_list ev_totals = Inr out"
    and ij: "i < j" "j < length out"
  shows "key_lt (fst (out ! i)) (fst (out ! j)) \<noteq> Inr True
       \<and> key_lt (fst (out ! j)) (fst (out ! i)) \<noteq> Inr False
       \<and> (fst (fst (out ! i)) = fst (fst (out ! j)) \<and> fst (snd (fst (out ! i))) = fst (snd (fst (out ! j)))
          \<longrightarrow> fst (snd (snd (fst (out ! j)))) < fst (snd (snd (fst (out ! i))))
              \<or> fst (snd (snd (fst (out ! j)))) = fst (snd (snd (fst (out ! i))))
                \<and> snd (snd (snd (fst (out ! j)))) < snd (snd (snd (fst (out ! i)))))"
proof -
  let ?acc = "accumulate ev_totals stmt_list"
  from group_and_sort_Inr[OF out] obtain gs where
    gs: "process_rows ev_totals ?acc (stmt_rows ?acc) = Inr gs" "sorted_rev key_lt fst gs = Inr out"
    by blast
  have "distinct (map fst gs)"
    using gs(1) stmt_rows_distinct by (rule process_rows_distinct)
  with gs(2) have d: "distinct (map fst out)" by (rule sorted_rev_distinct)
  have s: "sorted_wrt (\<lambda>u v. key_rank (fst v) \<le> key_rank (fst u)) out"
    using key_lt_rank gs(2) by (rule sorted_rev_sorted)
  let ?ki = "fst (out ! i)" and ?kj = "fst (out ! j)"
  from s ij have le: "key_rank ?kj \<le> key_rank ?ki" by (simp add: sorted_wrt_iff_nth_less)
  have "i < length (map fst out)" "j < length (map fst out)" using ij by simp_all
  from nth_eq_iff_index_eq[OF d this] ij have "map fst out ! i \<noteq> map fst out ! j" by simp
  then have "?ki \<noteq> ?kj" using ij by simp
  then have "key_rank ?ki \<noteq> key_rank ?kj" by (simp add: key_rank_inj)
  with le have lt: "key_rank ?kj < key_rank ?ki" by simp
  have 1: "key_lt ?ki ?kj \<noteq> Inr True"
  proof
    assume "key_lt ?ki ?kj = Inr True"
    from key_lt_rank[OF this] lt show False by simp
  qed
  have 2: "key_lt ?kj ?ki \<noteq> Inr False"
  proof
    assume "key_lt ?kj ?ki = Inr False"
    from key_lt_rank[OF this] lt show False by simp
  qed
  obtain a1 i1 c1 v1 where ki: "?ki = (a1, i1, c1, v1)" by (cases ?ki)
  obtain a2 i2 c2 v2 where kj: "?kj = (a2, i2, c2, v2)" by (cases ?kj)
  have 3: "c2 < c1 \<or> c2 = c1 \<and> v2 < v1" if "a1 = a2" "i1 = i2"
  proof -
    from lt that have "(c2, v2) < (c1, v1)"
      unfolding ki kj by (simp add: less_prod_def' del: less_prod_simp)
    then show ?thesis by (simp add: less_prod_def' del: less_prod_simp)
  qed
  from 1 2 3 show ?thesis unfolding ki kj by simp
qed

theorem groups_descending_witness:
  "group_and_sort_statements [phos_ab, dephos_ab] None = Inr phos_groups
   \<and> (0::nat) < 1 \<and> 1 < length phos_groups
   \<and> key_lt (fst (phos_groups ! 0)) (fst (phos_groups ! 1)) \<noteq> Inr True
   \<and> key_lt (fst (phos_groups ! 1)) (fst (phos_groups ! 0)) \<noteq> Inr False
   \<and> fst (fst (phos_groups ! 0)) = fst (fst (phos_groups ! 1))
   \<and> fst (snd (fst (phos_groups ! 0))) = fst (snd (fst (phos_groups ! 1)))
   \<and> fst (snd (snd (fst (phos_groups ! 1)))) = fst (snd (snd (fst (phos_groups ! 0))))
   \<and> snd (snd (snd (fst (phos_groups ! 1)))) < snd (snd (snd (fst (phos_groups ! 0))))"
proof -
  have out: "group_and_sort_statements [phos_ab, dephos_ab] None = Inr phos_groups"
    unfolding phos_groups_def by (rule phos_out)
  have l: "(0::nat) < 1" "1 < length phos_groups" by (simp_all add: phos_groups_def)
  have e: "fst (fst (phos_groups ! 0)) = fst (fst (phos_groups ! 1))"
    "fst (snd (fst (phos_groups ! 0))) = fst (snd (fst (phos_groups ! 1)))"
    "fst (snd (snd (fst (phos_groups ! 1)))) = fst (snd (snd (fst (phos_groups ! 0))))"
    by (simp_all add: phos_groups_def)
  from groups_descending[OF out l] e out l show ?thesis by simp
qed

text \<open>
  C4. The claim is that the sort of the groups never fails on incomparable keys, also
  when Conversion statements are mixed with fixed-role ones. A Conversion with subject A
  and a Phosphorylation of D by A without evidence both have argument weight 0; their
  role tuples differ first where one holds a tuple of names and the other a name, and the
  comparison raises \<^verbatim>\<open>TypeError\<close>.
\<close>

theorem sort_fails_on_mixed_keys:
  "group_and_sort_statements [conversion_abc, phos_ad_no_evidence] None = Inl TypeError"
  by code_simp

section \<open>The claims about the key inverter\<close>

lemma name_of_make_agent: "name_of (make_agent n) = n"
  by (simp add: make_agent_def new_agent_def)

lemma map_name_of_make_agent: "map name_of (map make_agent ns) = ns"
  by (induction ns) (simp_all add: name_of_make_agent)

lemma name_set_idem: "sort (remdups (name_set ags)) = name_set ags"
proof -
  have "distinct (name_set ags)" by (simp add: name_set_def)
  then have "remdups (name_set ags) = name_set ags" by (rule distinct_remdups_id)
  moreover have "sorted (name_set ags)" by (simp add: name_set_def)
  ultimately show ?thesis by (simp add: sort_key_id_if_sorted)
qed

lemma name_set_make_agent: "name_set (map make_agent (name_set ags)) = name_set ags"
proof -
  have "name_set (map make_agent (name_set ags)) = sort (remdups (name_set ags))"
    unfolding name_set_def[of "map make_agent _"] map_name_of_make_agent ..
  then show ?thesis by (simp add: name_set_idem)
qed

lemma elem_names_KStr: "elem_names (map KStr ns) = Inr ns"
  by (induction ns) simp_all

lemma elem_names_names: "elem_names (map (\<lambda>ag. KStr (name_of ag)) ags) = Inr (map name_of ags)"
  by (induction ags) simp_all

lemma keys_of_Complex_last:
  "length (name_set ms) \<noteq> 2 \<Longrightarrow> last (keys_of (Complex ms)) = (''Complex'', map KStr (name_set ms))"
  by (simp add: Let_def)

lemma keys_of_Complex_names:
  "name_set ms' = name_set ms \<Longrightarrow> keys_of (Complex ms') = keys_of (Complex ms)"
  by (simp add: Let_def)

lemma default_round_trip:
  assumes "cls \<notin> set special_names"
  shows "make_stmt_from_sort_key (aw, map (\<lambda>ag. KStr (name_of ag)) ags, gw, cls) cls
          = Inr (Default cls (map make_agent (map name_of ags)))"
  using assms by (simp add: make_stmt_from_sort_key_def special_names_def elem_names_names)

lemma complex_round_trip:
  assumes n: "length (name_set ms) \<noteq> 2"
  shows "make_stmt_from_sort_key (aw, map KStr (name_set ms), gw, ''Complex'') ''Complex''
           = Inr (Complex (map make_agent (name_set ms)))"
    and "keys_of (Complex (map make_agent (name_set ms))) = keys_of (Complex ms)"
    and "keys_of (Complex ms) =
           (if 2 < length (name_set ms) \<and> length (name_set ms) < 6
            then map (\<lambda>(x, y). (''Complex'', [KStr x, KStr y])) (permutations2 (name_set ms))
            else [])
           @ [(''Complex'', map KStr (name_set ms))]"
proof -
  show "make_stmt_from_sort_key (aw, map KStr (name_set ms), gw, ''Complex'') ''Complex''
           = Inr (Complex (map make_agent (name_set ms)))"
    by (simp add: make_stmt_from_sort_key_def elem_names_KStr)
  show "keys_of (Complex (map make_agent (name_set ms))) = keys_of (Complex ms)"
    by (rule keys_of_Complex_names) (rule name_set_make_agent)
  show "keys_of (Complex ms) =
           (if 2 < length (name_set ms) \<and> length (name_set ms) < 6
            then map (\<lambda>(x, y). (''Complex'', [KStr x, KStr y])) (permutations2 (name_set ms))
            else [])
           @ [(''Complex'', map KStr (name_set ms))]"
    using n by (auto simp: Let_def)
qed

lemma conversion_round_trip:
  "make_stmt_from_sort_key
     (aw, [KStr (name_of subj), KTup (name_set obj_from), KTup (name_set obj_to)], gw, ''Conversion'')
     ''Conversion''
   = Inr (Conversion (make_agent (name_of subj)) (map make_agent (name_set obj_from))
            (map make_agent (name_set obj_to)))"
  "keys_of (Conversion (make_agent (name_of subj)) (map make_agent (name_set obj_from))
            (map make_agent (name_set obj_to)))
   = keys_of (Conversion subj obj_from obj_to)"
  by (simp_all add: make_stmt_from_sort_key_def name_of_make_agent name_set_make_agent)

text \<open>
  C5, as stated: deriving keys from the statement synthesized from a canonical key
  recovers exactly that key, also for the full-group key of a Complex. From the full key
  over A, B and C the synthesized Complex has these three members, and the keys derived
  from it are seven: the six pairwise keys, then the full key.
\<close>

theorem key_round_trip_counterexample:
  "make_stmt_from_sort_key (5, [KStr ''A'', KStr ''B'', KStr ''C''], 5, ''Complex'') ''Complex''
     = Inr (Complex [Some (new_agent ''A''), Some (new_agent ''B''), Some (new_agent ''C'')])
   \<and> keys_of (Complex [Some (new_agent ''A''), Some (new_agent ''B''), Some (new_agent ''C'')])
     = [(''Complex'', [KStr ''A'', KStr ''B'']), (''Complex'', [KStr ''A'', KStr ''C'']),
        (''Complex'', [KStr ''B'', KStr ''A'']), (''Complex'', [KStr ''B'', KStr ''C'']),
        (''Complex'', [KStr ''C'', KStr ''A'']), (''Complex'', [KStr ''C'', KStr ''B'']),
        (''Complex'', [KStr ''A'', KStr ''B'', KStr ''C''])]
   \<and> keys_of (Complex [Some (new_agent ''A''), Some (new_agent ''B''), Some (new_agent ''C'')])
     \<noteq> [(''Complex'', [KStr ''A'', KStr ''B'', KStr ''C''])]
   \<and> keys_of (body complex_abc) \<noteq> []
   \<and> last (keys_of (body complex_abc)) = (''Complex'', [KStr ''A'', KStr ''B'', KStr ''C''])"
  by code_simp

text \<open>
  C5, amended: take a well-formed statement that has a canonical key, that is every
  statement but a Complex with exactly two names (which yields pairwise keys only), and
  synthesize a statement with \<open>make_stmt_from_sort_key\<close> from that key, in a sort key
  with any weights, and its type. The synthesis succeeds and the keys derived from the
  result are those of the original statement. For a fixed-role type, Conversion,
  ActiveForm and HasActivity that is the original key alone. For the full-group key of a
  Complex it is the full key, preceded by the pairwise keys of its names when there are
  three to five of them. The role fillers of the result come from the names in the key,
  in order: the name \<^verbatim>\<open>'None'\<close>, which an absent role filler has, gives an absent
  role filler, and any other name the agent of that name; so the names derived from the
  result are the names of the original role fillers.
\<close>

theorem key_round_trip:
  assumes wf: "wf_body b"
    and full: "\<forall>ms. b = Complex ms \<longrightarrow> length (name_set ms) \<noteq> 2"
  shows "\<exists>b'. make_stmt_from_sort_key
                 (aw, snd (last (keys_of b)), gw, fst (last (keys_of b))) (fst (last (keys_of b))) = Inr b'
              \<and> keys_of b' = keys_of b
              \<and> last (keys_of b') = last (keys_of b)
              \<and> ((\<forall>ms. b \<noteq> Complex ms) \<longrightarrow> keys_of b' = [last (keys_of b)])
              \<and> (\<forall>ms. b = Complex ms \<longrightarrow>
                    keys_of b' =
                      (if 2 < length (name_set ms) \<and> length (name_set ms) < 6
                       then map (\<lambda>(x, y). (''Complex'', [KStr x, KStr y])) (permutations2 (name_set ms))
                       else [])
                      @ [last (keys_of b)]
                  \<and> body_agents b' =
                      map (\<lambda>n. if n = ''None'' then None else Some (new_agent n)) (name_set ms))
              \<and> (\<forall>subj obj_from obj_to. b = Conversion subj obj_from obj_to \<longrightarrow>
                    body_agents b' =
                      map (\<lambda>n. if n = ''None'' then None else Some (new_agent n))
                        (name_of subj # name_set obj_from @ name_set obj_to))
              \<and> ((\<forall>ms. b \<noteq> Complex ms) \<and> (\<forall>subj obj_from obj_to. b \<noteq> Conversion subj obj_from obj_to)
                    \<longrightarrow> body_agents b' =
                          map (\<lambda>a. if name_of a = ''None'' then None else Some (new_agent (name_of a)))
                            (body_agents b)
                      \<and> map name_of (body_agents b') = map name_of (body_agents b))"
proof (cases b)
  case (Complex ms)
  with full have n: "length (name_set ms) \<noteq> 2" by simp
  note r = complex_round_trip[OF n]
  have a: "body_agents (Complex (map make_agent (name_set ms))) =
      map (\<lambda>n. if n = ''None'' then None else Some (new_agent n)) (name_set ms)"
    by (simp add: make_agent_def)
  show ?thesis unfolding Complex keys_of_Complex_last[OF n]
    by (rule exI[of _ "Complex (map make_agent (name_set ms))"])
       (simp del: keys_of.simps body_agents.simps add: r a)
next
  case (Conversion subj obj_from obj_to)
  note r = conversion_round_trip
  have k: "keys_of (Conversion subj obj_from obj_to) =
     [(''Conversion'', [KStr (name_of subj), KTup (name_set obj_from), KTup (name_set obj_to)])]"
    by simp
  have a: "body_agents (Conversion (make_agent (name_of subj)) (map make_agent (name_set obj_from))
            (map make_agent (name_set obj_to))) =
      map (\<lambda>n. if n = ''None'' then None else Some (new_agent n))
        (name_of subj # name_set obj_from @ name_set obj_to)"
    by (simp add: make_agent_def)
  show ?thesis unfolding Conversion
    by (rule exI[of _ "Conversion (make_agent (name_of subj)) (map make_agent (name_set obj_from))
            (map make_agent (name_set obj_to))"])
       (simp del: keys_of.simps body_agents.simps add: r k a)
next
  case (ActiveForm ag act is_active)
  then show ?thesis
    by (cases ag) (simp_all add: make_stmt_from_sort_key_def make_agent_def new_agent_def)
next
  case (HasActivity ag act has_activity)
  then show ?thesis
    by (cases ag) (simp_all add: make_stmt_from_sort_key_def make_agent_def new_agent_def)
next
  case (Modification cls rm enz sub residue position)
  with wf have c: "cls \<notin> set special_names" by simp
  from default_round_trip[OF c, of aw "[enz, Some sub]" gw] show ?thesis
    unfolding Modification by (simp add: make_agent_def new_agent_def)
next
  case (RegulateActivity cls subj obj obj_activity)
  with wf have c: "cls \<notin> set special_names" by simp
  from default_round_trip[OF c, of aw "[subj, Some obj]" gw] show ?thesis
    unfolding RegulateActivity by (simp add: make_agent_def new_agent_def)
next
  case (Default cls ags)
  with wf have c: "cls \<notin> set special_names" by simp
  have m: "map (\<lambda>a. KStr (name_of a)) (map make_agent (map name_of ags)) = map (\<lambda>a. KStr (name_of a)) ags"
    by (simp add: name_of_make_agent comp_def)
  have m2: "map name_of (map make_agent (map name_of ags)) = map name_of ags"
    by (simp add: name_of_make_agent comp_def)
  have m3: "map make_agent (map name_of ags) =
      map (\<lambda>a. if name_of a = ''None'' then None else Some (new_agent (name_of a))) ags"
    by (simp add: make_agent_def comp_def)
  from default_round_trip[OF c, of aw ags gw] show ?thesis
    unfolding Default using m m2 m3 by simp
qed

theorem key_round_trip_witness:
  "wf_body (body phos_none_b)
   \<and> body phos_none_b = Modification ''Phosphorylation'' False None (new_agent ''B'') None None
   \<and> keys_of (body phos_none_b) = [(''Phosphorylation'', [KStr ''None'', KStr ''B''])]
   \<and> make_stmt_from_sort_key (1, [KStr ''None'', KStr ''B''], 1, ''Phosphorylation'') ''Phosphorylation''
       = Inr (Default ''Phosphorylation'' [None, Some (new_agent ''B'')])
   \<and> (\<exists>b'. make_stmt_from_sort_key (1, [KStr ''None'', KStr ''B''], 1, ''Phosphorylation'') ''Phosphorylation'' = Inr b'
            \<and> keys_of b' = [(''Phosphorylation'', [KStr ''None'', KStr ''B''])]
            \<and> body_agents b' = [None, Some (new_agent ''B'')]
            \<and> map name_of (body_agents b') = [''None'', ''B''])"
proof -
  have b: "body phos_none_b = Modification ''Phosphorylation'' False None (new_agent ''B'') None None"
    by (simp add: phos_none_b_def stmt_with_def)
  have wf: "wf_body (body phos_none_b)" unfolding b by (simp add: special_names_def)
  have full: "\<forall>ms. body phos_none_b = Complex ms \<longrightarrow> length (name_set ms) \<noteq> 2"
    unfolding b by simp
  have m: "make_stmt_from_sort_key (1, [KStr ''None'', KStr ''B''], 1, ''Phosphorylation'') ''Phosphorylation''
       = Inr (Default ''Phosphorylation'' [None, Some (new_agent ''B'')])"
    by code_simp
  have nm: "name (new_agent ''B'') = ''B''"
    by (simp add: new_agent_def)
  from key_round_trip[OF wf full, of 1 1] wf b m nm show ?thesis by simp
qed

section \<open>The claims about the corpus filters\<close>

lemma grounded_loop_remove:
  "grounded_loop c True ags = (g, ags') \<Longrightarrow>
     g = list_all (\<lambda>a. case a of None \<Rightarrow> True | Some ag \<Rightarrow> c ag) ags
     \<and> (g \<longrightarrow> ags' = map (map_option (\<lambda>ag. remove_bound_conditions ag c)) ags)"
proof (induction ags arbitrary: g ags')
  case Nil
  then show ?case by simp
next
  case (Cons a ags)
  obtain g0 ags0 where r: "grounded_loop c True ags = (g0, ags0)" by (cases "grounded_loop c True ags")
  note ih = Cons.IH[OF r]
  show ?case
  proof (cases a)
    case None
    with Cons.prems r ih show ?thesis by auto
  next
    case (Some ag)
    show ?thesis
    proof (cases "c ag")
      case True
      with Some Cons.prems r ih show ?thesis by auto
    next
      case False
      with Some Cons.prems show ?thesis by auto
    qed
  qed
qed

lemma body_agents_with_agents:
  "body_agents (with_agents b (map (map_option f) (body_agents b))) = map (map_option f) (body_agents b)"
  by (cases b) simp_all

lemma class_name_with_agents:
  "class_name (with_agents b (map (map_option f) (body_agents b))) = class_name b"
  by (cases b) simp_all

text \<open>
  C7, as stated: \<open>filter_grounded_only\<close> with \<^verbatim>\<open>remove_bound=True\<close> returns as many
  statements as it was given. A statement whose role fillers have no grounding is
  dropped all the same.
\<close>

theorem grounded_remove_bound_counterexample:
  "fst (filter_grounded_only [phos_ab] None True) = [] \<and> length [phos_ab] = 1"
  by code_simp

text \<open>
  C7, amended: \<open>filter_grounded_only\<close> with \<^verbatim>\<open>remove_bound=True\<close> returns, in input
  order, the input statements all of whose present role fillers are grounded, so at most
  as many statements as it was given; no statement is dropped for a bound condition. In
  each returned statement every role filler keeps exactly its grounded bound conditions,
  and nothing else is changed: class, evidence, belief, hierarchy links, and the name,
  grounding, modifications and activity of each agent are as before.
\<close>

theorem grounded_remove_bound:
  "fst (filter_grounded_only stmts_in score_threshold True)
     = map (prune_bound (\<lambda>x. agent_is_grounded x score_threshold))
         (filter (agents_pass (\<lambda>x. agent_is_grounded x score_threshold)) stmts_in)
   \<and> length (fst (filter_grounded_only stmts_in score_threshold True)) \<le> length stmts_in
   \<and> agent_list (prune_bound keep st) = map (map_option (\<lambda>ag. remove_bound_conditions ag keep)) (agent_list st)
   \<and> class_name (body (prune_bound keep st)) = class_name (body st)
   \<and> evidence (prune_bound keep st) = evidence st
   \<and> belief (prune_bound keep st) = belief st
   \<and> supports (prune_bound keep st) = supports st
   \<and> supported_by (prune_bound keep st) = supported_by st
   \<and> name (remove_bound_conditions ag keep) = name ag
   \<and> db_refs (remove_bound_conditions ag keep) = db_refs ag
   \<and> mods (remove_bound_conditions ag keep) = mods ag
   \<and> activity (remove_bound_conditions ag keep) = activity ag
   \<and> bound_conditions (remove_bound_conditions ag keep) = filter (\<lambda>bc. keep (fst bc)) (bound_conditions ag)"
proof -
  let ?c = "\<lambda>x. agent_is_grounded x score_threshold"
  have 1: "fst (filter_grounded_only stmts_in score_threshold True)
     = map (prune_bound ?c) (filter (agents_pass ?c) stmts_in)"
  proof (induction stmts_in)
    case Nil
    show ?case by (simp add: filter_grounded_only_def Let_def)
  next
    case (Cons st stmts)
    obtain g ags where r: "grounded_loop ?c True (agent_list st) = (g, ags)"
      by (cases "grounded_loop ?c True (agent_list st)")
    from grounded_loop_remove[OF r] have
      g: "g = agents_pass ?c st"
      and a: "g \<longrightarrow> ags = map (map_option (\<lambda>ag. remove_bound_conditions ag ?c)) (agent_list st)"
      by (simp_all add: agents_pass_def)
    from Cons have ih: "map snd (filter fst (map (\<lambda>st. case grounded_loop ?c True (agent_list st) of
                                (g, ags) \<Rightarrow> (g, set_agents st ags)) stmts))
        = map (prune_bound ?c) (filter (agents_pass ?c) stmts)"
      by (simp add: filter_grounded_only_def Let_def)
    show ?case
    proof (cases g)
      case True
      with g a r ih show ?thesis by (simp add: filter_grounded_only_def Let_def prune_bound_def)
    next
      case False
      with g r ih show ?thesis by (simp add: filter_grounded_only_def Let_def)
    qed
  qed
  have 2: "length (fst (filter_grounded_only stmts_in score_threshold True)) \<le> length stmts_in"
    unfolding 1 by simp
  have 3: "agent_list (prune_bound keep st) = map (map_option (\<lambda>ag. remove_bound_conditions ag keep)) (agent_list st)"
    by (simp add: prune_bound_def set_agents_def agent_list_def body_agents_with_agents)
  have 4: "class_name (body (prune_bound keep st)) = class_name (body st)"
    by (simp add: prune_bound_def set_agents_def agent_list_def class_name_with_agents)
  from 1 2 3 4 show ?thesis
    by (simp add: prune_bound_def set_agents_def remove_bound_conditions_def)
qed

text \<open>
  C9. The claim is that a policy filter called with an unknown policy either returns its
  input or fails, and never returns no value. \<open>filter_by_db_refs\<close> returns without a
  value (\<open>None\<close>), while \<open>filter_concept_names\<close> and \<open>filter_gene_list\<close> return the input
  list.
\<close>

theorem invalid_policy_returns_none:
  "filter_by_db_refs [phos_ab] ''HGNC'' [''6840''] ''any'' False False = Inr None
   \<and> filter_concept_names [phos_ab] [''A''] ''any'' False = [phos_ab]
   \<and> filter_gene_list no_families [phos_ab] [''A''] ''any'' False False False = Inr ([phos_ab], [phos_ab])"
  by (simp add: filter_by_db_refs_def filter_concept_names_def filter_gene_list_def)

lemma all_marked_no_evidence: "evidence st = [] \<Longrightarrow> \<not> all_marked flag st"
  by (simp add: all_marked_def)

text \<open>
  C10. A statement of the input whose evidence list is empty is in the output of
  \<open>filter_no_hypothesis\<close> and of \<open>filter_no_negated\<close>.
\<close>

theorem empty_evidence_kept:
  assumes "st \<in> set stmts_in" and "evidence st = []"
  shows "st \<in> set (filter_no_hypothesis stmts_in) \<and> st \<in> set (filter_no_negated stmts_in)"
  using assms by (simp add: filter_no_hypothesis_def filter_no_negated_def all_marked_no_evidence)

theorem empty_evidence_kept_witness:
  "phos_ad_no_evidence \<in> set [phos_ab, phos_ad_no_evidence]
   \<and> evidence phos_ad_no_evidence = []
   \<and> phos_ad_no_evidence \<in> set (filter_no_hypothesis [phos_ab, phos_ad_no_evidence])
   \<and> phos_ad_no_evidence \<in> set (filter_no_negated [phos_ab, phos_ad_no_evidence])"
proof -
  have m: "phos_ad_no_evidence \<in> set [phos_ab, phos_ad_no_evidence]" by simp
  have e: "evidence phos_ad_no_evidence = []" by (simp add: phos_ad_no_evidence_def stmt_with_def)
  from empty_evidence_kept[OF m e] m e show ?thesis by blast
qed

lemma filter_belief_spec:
  "filter_belief h stmts_in c = (stmts_out, h') \<Longrightarrow>
     stmts_out = filter (\<lambda>r. c \<le> belief (h r)) stmts_in
     \<and> (\<forall>r. body (h' r) = body (h r) \<and> evidence (h' r) = evidence (h r)
            \<and> shallow_hash (h' r) = shallow_hash (h r) \<and> belief (h' r) = belief (h r)
            \<and> supports (h' r) = (if r \<in> set stmts_out then kept_links c h (supports (h r)) else supports (h r))
            \<and> supported_by (h' r) = (if r \<in> set stmts_out then kept_links c h (supported_by (h r)) else supported_by (h r)))"
proof (induction stmts_in arbitrary: h stmts_out h')
  case Nil
  then show ?case by simp
next
  case (Cons r0 rs)
  show ?case
  proof (cases "belief (h r0) < c")
    case True
    with Cons.prems have "filter_belief h rs c = (stmts_out, h')" by simp
    from Cons.IH[OF this] True show ?thesis by auto
  next
    case False
    define h1 where "h1 = h(r0 := (h r0)\<lparr>supports := kept_links c h (supports (h r0)),
                                          supported_by := kept_links c h (supported_by (h r0))\<rparr>)"
    obtain out1 h2 where r: "filter_belief h1 rs c = (out1, h2)" by (cases "filter_belief h1 rs c")
    from Cons.prems False r have o: "stmts_out = r0 # out1" "h' = h2"
      by (simp_all add: Let_def h1_def kept_links_def)
    have b: "belief (h1 x) = belief (h x)" for x by (simp add: h1_def)
    then have k: "kept_links c h1 = kept_links c h" by (simp add: kept_links_def fun_eq_iff)
    note ih = Cons.IH[OF r, unfolded b k]
    from ih have out1: "out1 = filter (\<lambda>r. c \<le> belief (h r)) rs" by simp
    have 1: "stmts_out = filter (\<lambda>r. c \<le> belief (h r)) (r0 # rs)"
      using o(1) out1 False by simp
    have 2: "body (h' x) = body (h x) \<and> evidence (h' x) = evidence (h x)
            \<and> shallow_hash (h' x) = shallow_hash (h x) \<and> belief (h' x) = belief (h x)
            \<and> supports (h' x) = (if x \<in> set stmts_out then kept_links c h (supports (h x)) else supports (h x))
            \<and> supported_by (h' x) = (if x \<in> set stmts_out then kept_links c h (supported_by (h x)) else supported_by (h x))" for x
    proof (cases "x = r0")
      case True
      have "kept_links c h (kept_links c h l) = kept_links c h l" for l
        by (simp add: kept_links_def)
      with ih True o show ?thesis by (simp add: h1_def)
    next
      case False
      with ih o show ?thesis by (simp add: h1_def)
    qed
    from 1 2 show ?thesis by blast
  qed
qed

lemma remove_bound_all_spec:
  "remove_bound_all keep ags = Inr ags' \<Longrightarrow>
     ags' = map (map_option (\<lambda>ag. remove_bound_conditions ag keep)) ags"
proof (induction ags arbitrary: ags')
  case Nil
  then show ?case by simp
next
  case (Cons a ags)
  show ?case
  proof (cases a)
    case None
    with Cons.prems show ?thesis by simp
  next
    case (Some ag)
    with Cons.prems obtain r where r: "remove_bound_all keep ags = Inr r"
      by (cases "remove_bound_all keep ags") simp_all
    with Some Cons.prems Cons.IH[OF r] show ?thesis by simp
  qed
qed

lemma remove_bound_stmts_spec:
  "remove_bound_stmts keep stmts = Inr stmts' \<Longrightarrow> stmts' = map (prune_bound keep) stmts"
proof (induction stmts arbitrary: stmts')
  case Nil
  then show ?case by simp
next
  case (Cons st stmts)
  from Cons.prems obtain ags where a: "remove_bound_all keep (agent_list st) = Inr ags"
    by (cases "remove_bound_all keep (agent_list st)") simp_all
  with Cons.prems obtain r where r: "remove_bound_stmts keep stmts = Inr r"
    by (cases "remove_bound_stmts keep stmts") simp_all
  from Cons.prems a r Cons.IH[OF r] remove_bound_all_spec[OF a] show ?case
    by (simp add: prune_bound_def)
qed

lemma filter_gene_list_remove_bound:
  assumes "filter_gene_list family_ids stmts_in gene_list policy allow_families True invert
             = Inr (stmts_out, stmts_in')"
  shows "stmts_in' = map (prune_bound (gene_keep family_ids gene_list allow_families invert)) stmts_in
         \<and> set stmts_out \<subseteq> set stmts_in'"
proof -
  let ?keep = "gene_keep family_ids gene_list allow_families invert"
  have k: "(\<lambda>a. if \<not> invert
                 then name a \<in> set (gene_list @ (if allow_families then concat (map family_ids gene_list) else []))
                 else name a \<notin> set (gene_list @ (if allow_families then concat (map family_ids gene_list) else [])))
           = ?keep"
    by (simp add: gene_keep_def Let_def fun_eq_iff)
  from assms obtain stmts where r: "remove_bound_stmts ?keep stmts_in = Inr stmts"
    unfolding filter_gene_list_def Let_def k
    by (cases "remove_bound_stmts ?keep stmts_in") simp_all
  from assms r have "stmts_in' = stmts" "set stmts_out \<subseteq> set stmts"
    unfolding filter_gene_list_def Let_def k by (auto split: if_splits)
  with remove_bound_stmts_spec[OF r] show ?thesis by simp
qed

lemma linked_eval:
  "fst (filter_belief linked_store [0] (1 / 2)) = [0]"
  "supports (snd (filter_belief linked_store [0] (1 / 2)) 0) = []"
  "supports (linked_store 0) = [1]"
  "filter_gene_list no_families [bound_stmt] [''B''] ''one'' False True False = Inr ([], [unbound_stmt])"
  by code_simp+

text \<open>
  C8, as stated: no filter changes the statements it was given; \<open>filter_belief\<close> leaves
  \<open>supports\<close> and \<open>supported_by\<close> of every input statement unchanged, and
  \<open>filter_gene_list\<close> with \<^verbatim>\<open>remove_bound=True\<close> leaves the bound conditions of a
  statement it does not return unchanged. Here \<open>filter_belief\<close> empties \<open>supports\<close> of the
  statement it returns, and \<open>filter_gene_list\<close> removes the bound partner of a statement
  it does not return.
\<close>

theorem filters_update_input_counterexample:
  "supports (linked_store 0) = [1]
   \<and> supports (snd (filter_belief linked_store [0] (1 / 2)) 0) = []
   \<and> filter_gene_list no_families [bound_stmt] [''B''] ''one'' False True False = Inr ([], [unbound_stmt])
   \<and> bound_stmt \<noteq> unbound_stmt"
  using linked_eval by (simp add: bound_stmt_def unbound_stmt_def stmt_with_def)

text \<open>
  C8, amended: \<open>filter_belief\<close> returns the input statements whose belief is not below
  the cutoff and leaves class, role fillers, evidence and belief of every statement as
  they were; in each statement it returns it replaces \<open>supports\<close> and \<open>supported_by\<close> by
  their sublists of statements whose belief is not below the cutoff, and it leaves the
  links of every other statement unchanged. \<open>filter_gene_list\<close> with
  \<^verbatim>\<open>remove_bound=True\<close> prunes, in every input statement, returned or not, the bound
  conditions of every role filler to those that meet the keep criterion, and returns
  some of the statements so updated.
\<close>

theorem filters_update_input:
  "(filter_belief h stmts_in belief_cutoff = (stmts_out, h') \<longrightarrow>
      stmts_out = filter (\<lambda>r. belief_cutoff \<le> belief (h r)) stmts_in
      \<and> body (h' r) = body (h r) \<and> evidence (h' r) = evidence (h r) \<and> belief (h' r) = belief (h r)
      \<and> supports (h' r) = (if r \<in> set stmts_out then kept_links belief_cutoff h (supports (h r))
                            else supports (h r))
      \<and> supported_by (h' r) = (if r \<in> set stmts_out then kept_links belief_cutoff h (supported_by (h r))
                                else supported_by (h r)))
   \<and> (filter_gene_list family_ids stmts gene_list policy allow_families True invert = Inr (out, stmts') \<longrightarrow>
      stmts' = map (prune_bound (gene_keep family_ids gene_list allow_families invert)) stmts
      \<and> set out \<subseteq> set stmts')"
  using filter_belief_spec[of h stmts_in belief_cutoff stmts_out h']
    filter_gene_list_remove_bound[of family_ids stmts gene_list policy allow_families invert out stmts']
  by blast

theorem filters_update_input_witness:
  "filter_belief linked_store [0] (1 / 2)
     = (fst (filter_belief linked_store [0] (1 / 2)), snd (filter_belief linked_store [0] (1 / 2)))
   \<and> fst (filter_belief linked_store [0] (1 / 2)) = [0]
   \<and> supports (snd (filter_belief linked_store [0] (1 / 2)) 0)
       = kept_links (1 / 2) linked_store (supports (linked_store 0))
   \<and> filter_gene_list no_families [bound_stmt] [''B''] ''one'' False True False = Inr ([], [unbound_stmt])
   \<and> [unbound_stmt] = map (prune_bound (gene_keep no_families [''B''] False False)) [bound_stmt]"
proof -
  have p: "filter_belief linked_store [0] (1 / 2)
     = (fst (filter_belief linked_store [0] (1 / 2)), snd (filter_belief linked_store [0] (1 / 2)))"
    by simp
  from filters_update_input[of linked_store "[0]" "1 / 2" "fst (filter_belief linked_store [0] (1 / 2))"
      "snd (filter_belief linked_store [0] (1 / 2))" 0 no_families "[bound_stmt]" "[''B'']" "''one''"
      False False "[]" "[unbound_stmt]"] p linked_eval
  show ?thesis by simp
qed














end
